theory Spec2Isabelle
  imports Main
begin


section \<open>JavaScript strings, values and property lookup\<close>

text \<open>
  A JavaScript string is modelled as a \<^typ>\<open>string\<close>: one \<^typ>\<open>char\<close> per UTF-16 code
  unit, for the code units below 256 (ASCII and Latin-1).  The functions below are the
  built-ins the userscript calls on file and folder names.
\<close>

text \<open>\<^verbatim>\<open>String.prototype.toLowerCase\<close>: the letters A-Z and the upper-case letters of
  Latin-1 (U+00C0 to U+00DE, without the multiplication sign U+00D7) move up by 32.\<close>

definition toLowerCase_char :: "char \<Rightarrow> char" where
  "toLowerCase_char c =
     (let n = (of_char c :: nat)
      in if (65 \<le> n \<and> n \<le> 90) \<or> (192 \<le> n \<and> n \<le> 222 \<and> n \<noteq> 215)
         then char_of (n + 32) else c)"

definition toLowerCase :: "string \<Rightarrow> string" where
  "toLowerCase s = map toLowerCase_char s"

text \<open>\<^verbatim>\<open>s.split(sep)\<close> for a one-character separator: never the empty list; the empty
  string splits into one empty segment.\<close>

fun split_on :: "char \<Rightarrow> string \<Rightarrow> string list" where
  "split_on sep [] = [[]]"
| "split_on sep (c # cs) =
     (if c = sep then [] # split_on sep cs
      else (case split_on sep cs of
              [] \<Rightarrow> [[c]]
            | p # ps \<Rightarrow> (c # p) # ps))"

text \<open>\<^verbatim>\<open>parts.join(sep)\<close>.\<close>

fun join :: "string \<Rightarrow> string list \<Rightarrow> string" where
  "join sep [] = []"
| "join sep [p] = p"
| "join sep (p # q # ps) = p @ sep @ join sep (q # ps)"

text \<open>\<^verbatim>\<open>s.startsWith('.')\<close> and \<^verbatim>\<open>s.substring(1)\<close>.\<close>

definition startsWith_dot :: "string \<Rightarrow> bool" where
  "startsWith_dot s = (case s of [] \<Rightarrow> False | c # _ \<Rightarrow> c = CHR ''.'')"

definition substring1 :: "string \<Rightarrow> string" where
  "substring1 s = drop 1 s"

text \<open>
  What a property read \<^verbatim>\<open>table[key]\<close> or a resolution function can yield.  The three
  tables of \<^verbatim>\<open>ICON_MAPPINGS\<close> are object literals, so a read of a key that is not an own
  property goes on to \<^verbatim>\<open>Object.prototype\<close>: \<open>JProto k\<close> is the function or object
  found there under \<open>k\<close>.
\<close>

datatype jsval = JStr string | JProto string | JUndefined | JNull

definition object_prototype_keys :: "string list" where
  "object_prototype_keys =
     [''constructor'', ''hasOwnProperty'', ''isPrototypeOf'', ''propertyIsEnumerable'',
      ''toLocaleString'', ''toString'', ''valueOf'', ''__defineGetter__'',
      ''__defineSetter__'', ''__lookupGetter__'', ''__lookupSetter__'']"

text \<open>\<^verbatim>\<open>table[key]\<close>.  The key \<^verbatim>\<open>__proto__\<close> is the accessor of the prototype itself: it is
  never an own property of an object written as a literal.\<close>

definition js_get :: "(string \<rightharpoonup> string) \<Rightarrow> string \<Rightarrow> jsval" where
  "js_get table key =
     (if key = ''__proto__'' then JProto key
      else case table key of
             Some v \<Rightarrow> JStr v
           | None \<Rightarrow> if key \<in> set object_prototype_keys then JProto key else JUndefined)"

text \<open>The truthiness an \<^verbatim>\<open>if (...)\<close> or an \<^verbatim>\<open>||\<close> tests: the empty string,
  \<^verbatim>\<open>undefined\<close> and \<^verbatim>\<open>null\<close> are falsy; functions and objects are truthy.\<close>

fun truthy :: "jsval \<Rightarrow> bool" where
  "truthy (JStr s) = (s \<noteq> [])"
| "truthy (JProto k) = True"
| "truthy JUndefined = False"
| "truthy JNull = False"

section \<open>The icon table and name resolution\<close>

text \<open>\<^verbatim>\<open>ICON_MAPPINGS\<close>, as \<^verbatim>\<open>buildIconMappings\<close> lays it out: three tables from names to
  data URIs, two optional defaults and the symlink icon.\<close>

record icon_mappings =
  extensions :: "string \<rightharpoonup> string"
  filenames :: "string \<rightharpoonup> string"
  folders :: "string \<rightharpoonup> string"
  defaultFile :: "string option"
  defaultFolder :: "string option"
  symlink :: string

text \<open>\<^verbatim>\<open>ICON_MAPPINGS.defaultFile || null\<close>: an absent or empty default is \<^verbatim>\<open>null\<close>.\<close>

definition or_null :: "string option \<Rightarrow> jsval" where
  "or_null d = (case d of
                  None \<Rightarrow> JNull
                | Some s \<Rightarrow> if truthy (JStr s) then JStr s else JNull)"

text \<open>\<^verbatim>\<open>getFileIcon(filename)\<close>: every \<^verbatim>\<open>return\<close> of the source is one branch, in the
  source's order.\<close>

definition getFileIcon :: "icon_mappings \<Rightarrow> string \<Rightarrow> jsval" where
  "getFileIcon m filename =
     (if truthy (js_get (filenames m) filename) then js_get (filenames m) filename
      else
        let parts = split_on CHR ''.'' filename;
            withoutLastExt = join ''.'' (butlast parts);
            secondExt = toLowerCase (parts ! (length parts - 2));
            ext = toLowerCase (parts ! (length parts - 1))
        in if length parts > 2 \<and> truthy (js_get (filenames m) withoutLastExt)
             then js_get (filenames m) withoutLastExt
           else if length parts > 2 \<and> truthy (js_get (extensions m) secondExt)
             then js_get (extensions m) secondExt
           else if length parts > 1 \<and> truthy (js_get (extensions m) ext)
             then js_get (extensions m) ext
           else or_null (defaultFile m))"

text \<open>\<^verbatim>\<open>getFolderIcon(foldername)\<close>.\<close>

definition getFolderIcon :: "icon_mappings \<Rightarrow> string \<Rightarrow> jsval" where
  "getFolderIcon m foldername =
     (if truthy (js_get (folders m) foldername) then js_get (folders m) foldername
      else
        let withoutDot = substring1 foldername
        in if startsWith_dot foldername \<and> truthy (js_get (folders m) withoutDot)
             then js_get (folders m) withoutDot
           else or_null (defaultFolder m))"

text \<open>The classification the two item scanners derive from the DOM, and the icon they
  pick for it (the same \<^verbatim>\<open>if (isSymlink) ... else if (isFolder) ... else ...\<close> in both).\<close>

datatype kind = File | Folder | Symlink

definition resolve :: "icon_mappings \<Rightarrow> kind \<Rightarrow> string \<Rightarrow> jsval" where
  "resolve m k name =
     (case k of
        Symlink \<Rightarrow> JStr (symlink m)
      | Folder \<Rightarrow> getFolderIcon m name
      | File \<Rightarrow> getFileIcon m name)"

section \<open>Record extraction from the TypeScript icon definitions\<close>

text \<open>\<^verbatim>\<open>s.substring(a, b)\<close> for \<open>a \<le> b\<close>, the only way \<^verbatim>\<open>parseTypeScriptConfigs\<close> calls it.\<close>

definition substring :: "string \<Rightarrow> nat \<Rightarrow> nat \<Rightarrow> string" where
  "substring s a b = take (b - a) (drop a s)"

text \<open>The brace-counting loop over \<^verbatim>\<open>fileIconsContent\<close> from \<^verbatim>\<open>blockStart\<close> on: the first
  argument is the text not yet read, \<open>i\<close> its index.  The result is \<^verbatim>\<open>blockEnd\<close> and
  \<^verbatim>\<open>braceCount\<close> when the loop ends, by \<^verbatim>\<open>break\<close> or at the end of the text.\<close>

fun scanBraces :: "string \<Rightarrow> nat \<Rightarrow> int \<Rightarrow> bool \<Rightarrow> nat \<Rightarrow> nat \<times> int" where
  "scanBraces [] i braceCount inBlock blockEnd = (blockEnd, braceCount)"
| "scanBraces (c # cs) i braceCount inBlock blockEnd =
     (if c = CHR ''{'' then scanBraces cs (i + 1) (braceCount + 1) True blockEnd
      else if c = CHR ''}'' then
        (if inBlock \<and> braceCount - 1 = 0 then (i, braceCount - 1)
         else scanBraces cs (i + 1) (braceCount - 1) inBlock blockEnd)
      else scanBraces cs (i + 1) braceCount inBlock blockEnd)"

text \<open>The block of a file icon record starting at \<^verbatim>\<open>match.index\<close>; \<open>None\<close> when the
  record is skipped with the warning.\<close>

definition fileIconBlock :: "string \<Rightarrow> nat \<Rightarrow> string option" where
  "fileIconBlock fileIconsContent blockStart =
     (let (blockEnd, braceCount) =
            scanBraces (drop blockStart fileIconsContent) blockStart 0 False blockStart
      in if blockEnd = blockStart \<or> braceCount \<noteq> 0 then None
         else Some (substring fileIconsContent blockStart (blockEnd + 1)))"

text \<open>\<^verbatim>\<open>s.indexOf(c, start)\<close>; \<open>None\<close> is the result \<^verbatim>\<open>-1\<close>.\<close>

fun indexOf_from :: "char \<Rightarrow> string \<Rightarrow> nat \<Rightarrow> nat option" where
  "indexOf_from c [] i = None"
| "indexOf_from c (x # xs) i = (if x = c then Some i else indexOf_from c xs (i + 1))"

definition indexOf :: "string \<Rightarrow> char \<Rightarrow> nat \<Rightarrow> nat option" where
  "indexOf s c start = indexOf_from c (drop start s) start"

text \<open>The block of a folder icon record starting at \<^verbatim>\<open>match.index\<close>.\<close>

definition folderIconBlock :: "string \<Rightarrow> nat \<Rightarrow> string option" where
  "folderIconBlock folderIconsContent blockStart =
     (case indexOf folderIconsContent CHR ''}'' blockStart of
        None \<Rightarrow> None
      | Some blockEnd \<Rightarrow>
          if blockEnd \<le> blockStart then None
          else Some (substring folderIconsContent blockStart blockEnd))"


section \<open>The document\<close>

text \<open>
  The page as the userscript sees it.  An element is its identity \<open>eid\<close> (the object
  the script holds a reference to), its tag in lower case, its class list and its other
  attributes; a node is an element with its children, or a text node.  The script reads
  and writes inline styles only through \<^verbatim>\<open>element.style\<close>, so they are kept in a store of
  their own, from element identity to the style properties set: \<open>styles\<close>.  \<open>fresh\<close> is
  the identity the next \<^verbatim>\<open>document.createElement\<close> hands out.
\<close>

record elt =
  eid :: nat
  tag :: string
  classes :: "string list"
  attrs :: "(string \<times> string) list"

datatype node = Element elt "node list" | Text string

record dom =
  root :: node
  styles :: "nat \<Rightarrow> string \<rightharpoonup> string"
  fresh :: nat

text \<open>The one exception the scan could raise: a method call on \<^verbatim>\<open>null\<close>.\<close>

datatype js_error = TypeError

subsection \<open>Strings\<close>

text \<open>\<^verbatim>\<open>s.includes(pat)\<close>, \<^verbatim>\<open>s.startsWith(pat)\<close> and \<^verbatim>\<open>s.trim()\<close> (white space: tab, line
  feed, vertical tab, form feed, carriage return, space, no-break space).\<close>

fun str_includes :: "string \<Rightarrow> string \<Rightarrow> bool" where
  "str_includes [] pat = (pat = [])"
| "str_includes (c # cs) pat = (take (length pat) (c # cs) = pat \<or> str_includes cs pat)"

definition startsWith :: "string \<Rightarrow> string \<Rightarrow> bool" where
  "startsWith s pat = (take (length pat) s = pat)"

definition is_space :: "char \<Rightarrow> bool" where
  "is_space c = ((of_char c :: nat) \<in> {9, 10, 11, 12, 13, 32, 160})"

definition trim :: "string \<Rightarrow> string" where
  "trim s = rev (dropWhile is_space (rev (dropWhile is_space s)))"

subsection \<open>Selectors\<close>

text \<open>
  The CSS selectors of the script, as data.  A compound selector is a list of simple
  ones that must all hold of one element; \<open>Descendant a c\<close> is \<^verbatim>\<open>a c\<close>: an element that
  matches \<open>c\<close> below some element that matches \<open>a\<close>; a selector is a list of
  alternatives, the commas of the source.  The \<^verbatim>\<open>class\<close> attribute is the class list
  joined by spaces.
\<close>

datatype simple_sel =
    Tag string | Class string | NotClass string
  | AttrEq string string | AttrContains string string | AttrPrefix string string | HasAttr string

datatype complex_sel = Compound "simple_sel list" | Descendant "simple_sel list" "simple_sel list"

type_synonym selector = "complex_sel list"

definition getAttribute :: "elt \<Rightarrow> string \<Rightarrow> string option" where
  "getAttribute e name =
     (if name = ''class'' then (if classes e = [] then None else Some (join '' '' (classes e)))
      else map_of (attrs e) name)"

fun matches_simple :: "elt \<Rightarrow> simple_sel \<Rightarrow> bool" where
  "matches_simple e (Tag t) = (tag e = t)"
| "matches_simple e (Class c) = (c \<in> set (classes e))"
| "matches_simple e (NotClass c) = (c \<notin> set (classes e))"
| "matches_simple e (AttrEq a v) = (getAttribute e a = Some v)"
| "matches_simple e (AttrContains a v) =
     (case getAttribute e a of None \<Rightarrow> False | Some w \<Rightarrow> str_includes w v)"
| "matches_simple e (AttrPrefix a v) =
     (case getAttribute e a of None \<Rightarrow> False | Some w \<Rightarrow> startsWith w v)"
| "matches_simple e (HasAttr a) = (getAttribute e a \<noteq> None)"

fun matches_complex :: "elt list \<Rightarrow> elt \<Rightarrow> complex_sel \<Rightarrow> bool" where
  "matches_complex anc e (Compound c) = list_all (matches_simple e) c"
| "matches_complex anc e (Descendant a c) =
     (list_all (matches_simple e) c \<and> list_ex (\<lambda>x. list_all (matches_simple x) a) anc)"

definition matches :: "selector \<Rightarrow> elt list \<Rightarrow> elt \<Rightarrow> bool" where
  "matches sel anc e = list_ex (matches_complex anc e) sel"

subsection \<open>Reading the tree\<close>

text \<open>
  \<open>entries\<close> lists every element of a tree in document order, each with its
  ancestors, the nearest first.  A selector is matched against the whole document (its
  ancestor part may be satisfied above the element the query starts from), and
  \<^verbatim>\<open>e.querySelectorAll\<close> keeps the matching elements strictly below \<open>e\<close>.
\<close>

fun entries :: "elt list \<Rightarrow> node \<Rightarrow> (elt list \<times> elt) list" where
  "entries anc (Text t) = []"
| "entries anc (Element e cs) = (anc, e) # concat (map (entries (e # anc)) cs)"

definition doc_entries :: "dom \<Rightarrow> (elt list \<times> elt) list" where
  "doc_entries d = entries [] (root d)"

definition entry_of :: "dom \<Rightarrow> nat \<Rightarrow> (elt list \<times> elt) option" where
  "entry_of d i = find (\<lambda>x. eid (snd x) = i) (doc_entries d)"

definition document_querySelectorAll :: "dom \<Rightarrow> selector \<Rightarrow> elt list" where
  "document_querySelectorAll d sel =
     map snd (filter (\<lambda>x. matches sel (fst x) (snd x)) (doc_entries d))"

definition querySelectorAll :: "dom \<Rightarrow> nat \<Rightarrow> selector \<Rightarrow> elt list" where
  "querySelectorAll d scope sel =
     map snd (filter (\<lambda>x. scope \<in> eid ` set (fst x) \<and> matches sel (fst x) (snd x)) (doc_entries d))"

definition querySelector :: "dom \<Rightarrow> nat \<Rightarrow> selector \<Rightarrow> elt option" where
  "querySelector d scope sel =
     (case querySelectorAll d scope sel of [] \<Rightarrow> None | e # _ \<Rightarrow> Some e)"

text \<open>\<^verbatim>\<open>e.closest(sel)\<close>: the element itself, then its ancestors from the nearest on.\<close>

fun closest_in :: "selector \<Rightarrow> elt list \<Rightarrow> elt \<Rightarrow> elt option" where
  "closest_in sel [] e = (if matches sel [] e then Some e else None)"
| "closest_in sel (p # ps) e = (if matches sel (p # ps) e then Some e else closest_in sel ps p)"

definition closest :: "dom \<Rightarrow> nat \<Rightarrow> selector \<Rightarrow> elt option" where
  "closest d i sel = (case entry_of d i of None \<Rightarrow> None | Some (anc, e) \<Rightarrow> closest_in sel anc e)"

definition parentNode :: "dom \<Rightarrow> nat \<Rightarrow> elt option" where
  "parentNode d i = (case entry_of d i of Some (p # _, _) \<Rightarrow> Some p | _ \<Rightarrow> None)"

text \<open>\<open>texts\<close> lists the text nodes of a tree in document order, each with its ancestors;
  \<^verbatim>\<open>e.textContent\<close> is the text below \<open>e\<close>.\<close>

fun texts :: "elt list \<Rightarrow> node \<Rightarrow> (elt list \<times> string) list" where
  "texts anc (Text t) = [(anc, t)]"
| "texts anc (Element e cs) = concat (map (texts (e # anc)) cs)"

definition textContent :: "dom \<Rightarrow> nat \<Rightarrow> string" where
  "textContent d i =
     concat (map snd (filter (\<lambda>x. i \<in> eid ` set (fst x)) (texts [] (root d))))"

text \<open>The element children of \<open>p\<close> are the elements whose nearest ancestor is \<open>p\<close>, in
  document order; \<^verbatim>\<open>e.nextElementSibling\<close> is the first of those that follow \<open>e\<close> among
  the element children of its parent.\<close>

definition child_of :: "nat \<Rightarrow> elt list \<times> elt \<Rightarrow> bool" where
  "child_of p x = (case fst x of [] \<Rightarrow> False | q # _ \<Rightarrow> eid q = p)"

definition elementChildren :: "dom \<Rightarrow> nat \<Rightarrow> elt list" where
  "elementChildren d p = map snd (filter (child_of p) (doc_entries d))"

definition followingElementSiblings :: "dom \<Rightarrow> nat \<Rightarrow> elt list" where
  "followingElementSiblings d i =
     (case parentNode d i of
        None \<Rightarrow> []
      | Some p \<Rightarrow> drop 1 (dropWhile (\<lambda>e. eid e \<noteq> i) (elementChildren d (eid p))))"

definition nextElementSibling :: "dom \<Rightarrow> nat \<Rightarrow> elt option" where
  "nextElementSibling d i = (case followingElementSiblings d i of [] \<Rightarrow> None | e # _ \<Rightarrow> Some e)"

subsection \<open>Changing the tree\<close>

text \<open>
  Every change the script makes to the tree is a change of the child list of one
  element: \<open>modify_children p f\<close> applies \<open>f\<close> to the children of the element \<open>p\<close>.
  \<open>insertBeforeNext d p ref new\<close> is \<^verbatim>\<open>p.insertBefore(new, ref.nextSibling)\<close> for a child
  \<open>ref\<close> of \<open>p\<close>; \<open>insertAfter d ref new\<close> is
  \<^verbatim>\<open>ref.parentNode.insertBefore(new, ref.nextSibling)\<close>, which throws when \<open>ref\<close> has no
  parent (\<open>None\<close>); \<open>insertFirst d p new\<close> is \<^verbatim>\<open>p.insertBefore(new, p.firstChild)\<close>;
  \<open>remove d i\<close> is \<^verbatim>\<open>e.remove()\<close>, which does nothing to an element without a parent.
\<close>

fun node_id :: "node \<Rightarrow> nat option" where
  "node_id (Element e cs) = Some (eid e)"
| "node_id (Text t) = None"

fun modify_children :: "nat \<Rightarrow> (node list \<Rightarrow> node list) \<Rightarrow> node \<Rightarrow> node" where
  "modify_children p f (Text t) = Text t"
| "modify_children p f (Element e cs) =
     (if eid e = p then Element e (f cs) else Element e (map (modify_children p f) cs))"

fun insert_after_in :: "nat \<Rightarrow> node \<Rightarrow> node list \<Rightarrow> node list" where
  "insert_after_in i new [] = []"
| "insert_after_in i new (n # ns) =
     (if node_id n = Some i then n # new # ns else n # insert_after_in i new ns)"

definition insertBeforeNext :: "dom \<Rightarrow> nat \<Rightarrow> nat \<Rightarrow> node \<Rightarrow> dom" where
  "insertBeforeNext d p ref new = d\<lparr>root := modify_children p (insert_after_in ref new) (root d)\<rparr>"

definition insertAfter :: "dom \<Rightarrow> nat \<Rightarrow> node \<Rightarrow> dom option" where
  "insertAfter d ref new =
     (case parentNode d ref of
        None \<Rightarrow> None
      | Some p \<Rightarrow> Some (insertBeforeNext d (eid p) ref new))"

definition insertFirst :: "dom \<Rightarrow> nat \<Rightarrow> node \<Rightarrow> dom" where
  "insertFirst d p new = d\<lparr>root := modify_children p (Cons new) (root d)\<rparr>"

definition remove :: "dom \<Rightarrow> nat \<Rightarrow> dom" where
  "remove d i =
     (case parentNode d i of
        None \<Rightarrow> d
      | Some p \<Rightarrow>
          d\<lparr>root := modify_children (eid p) (filter (\<lambda>n. node_id n \<noteq> Some i)) (root d)\<rparr>)"

text \<open>\<^verbatim>\<open>e.style.prop\<close> read (the empty string when unset) and written.\<close>

definition style_get :: "dom \<Rightarrow> nat \<Rightarrow> string \<Rightarrow> string" where
  "style_get d i prop = (case styles d i prop of None \<Rightarrow> [] | Some v \<Rightarrow> v)"

definition style_set :: "dom \<Rightarrow> nat \<Rightarrow> string \<Rightarrow> string \<Rightarrow> dom" where
  "style_set d i prop v = d\<lparr>styles := (styles d)(i := (styles d i)(prop \<mapsto> v))\<rparr>"

text \<open>The two assignments that suppress an original icon:
  \<^verbatim>\<open>svg.style.visibility = 'hidden'; svg.style.position = 'absolute'\<close>.\<close>

definition hide :: "dom \<Rightarrow> nat \<Rightarrow> dom" where
  "hide d i = style_set (style_set d i ''visibility'' ''hidden'') i ''position'' ''absolute''"

section \<open>The injection engine\<close>

text \<open>The marker class of an injected image, and the test
  \<^verbatim>\<open>classList.contains('material-icon-replacement')\<close>.\<close>

definition replacement_class :: string where
  "replacement_class = ''material-icon-replacement''"

definition is_replacement :: "elt \<Rightarrow> bool" where
  "is_replacement e = (replacement_class \<in> set (classes e))"

text \<open>What \<^verbatim>\<open>img.src = iconDataUri\<close> stores: the value as a string.  The member
  \<^verbatim>\<open>constructor\<close> of \<^verbatim>\<open>Object.prototype\<close> is the function \<^verbatim>\<open>Object\<close>; every other
  function there carries the name of its key.\<close>

fun js_toString :: "jsval \<Rightarrow> string" where
  "js_toString (JStr s) = s"
| "js_toString (JProto k) =
     (if k = ''__proto__'' then ''[object Object]''
      else if k = ''constructor'' then ''function Object() { [native code] }''
      else ''function '' @ k @ ''() { [native code] }'')"
| "js_toString JUndefined = ''undefined''"
| "js_toString JNull = ''null''"

text \<open>\<^verbatim>\<open>createIconImg(iconDataUri, marginRight)\<close>: the new image element, not yet in the
  tree, and the document with the image's styles and the next fresh identity.\<close>

definition createIconImg :: "dom \<Rightarrow> jsval \<Rightarrow> string \<Rightarrow> elt \<times> dom" where
  "createIconImg d iconDataUri marginRight =
     (let i = fresh d;
          img = \<lparr>eid = i, tag = ''img'', classes = [replacement_class],
                 attrs = [(''src'', js_toString iconDataUri), (''aria-hidden'', ''true'')]\<rparr>;
          st = [''width'' \<mapsto> ''16px'', ''height'' \<mapsto> ''16px'', ''display'' \<mapsto> ''inline-block'',
                ''verticalAlign'' \<mapsto> ''text-bottom''];
          st' = (if marginRight \<noteq> [] then st(''marginRight'' \<mapsto> marginRight) else st)
      in (img, d\<lparr>styles := (styles d)(i := st'), fresh := Suc i\<rparr>))"

text \<open>The selectors of \<^verbatim>\<open>replaceIconForItem\<close>, \<^verbatim>\<open>replaceIconForTreeItem\<close> and
  \<^verbatim>\<open>replaceIcons\<close>, in the order of the source.\<close>

definition sel_up_tree :: selector where
  "sel_up_tree = [Compound [Tag ''a'', AttrEq ''data-testid'' ''up-tree'']]"
definition sel_svg_octicon :: selector where
  "sel_svg_octicon = [Compound [Tag ''svg'', Class ''octicon'']]"
definition sel_large_screen_cell :: selector where
  "sel_large_screen_cell = [Compound [Tag ''td'', Class ''react-directory-row-name-cell-large-screen'']]"
definition sel_td :: selector where
  "sel_td = [Compound [Tag ''td'']]"
definition sel_name_link :: selector where
  "sel_name_link = [Compound [Tag ''a'', AttrContains ''href'' ''/blob/''],
                    Compound [Tag ''a'', AttrContains ''href'' ''/tree/'']]"
definition sel_filename_column :: selector where
  "sel_filename_column = [Compound [Class ''react-directory-filename-column'']]"
definition sel_file_svg :: selector where
  "sel_file_svg = [Compound [Tag ''svg'', AttrContains ''class'' ''octicon-file'']]"
definition sel_edit_link :: selector where
  "sel_edit_link = [Compound [Tag ''a'', Class ''rgh-quick-file-edit'']]"
definition sel_replacement_img :: selector where
  "sel_replacement_img = [Compound [Tag ''img'', Class replacement_class]]"
definition sel_file_svg_not_pencil :: selector where
  "sel_file_svg_not_pencil =
     [Compound [Tag ''svg'', AttrContains ''class'' ''octicon-file'', NotClass ''octicon-pencil'']]"
definition sel_tree_text_span :: selector where
  "sel_tree_text_span = [Descendant [Class ''PRIVATE_TreeView-item-content-text''] [Tag ''span'']]"
definition sel_tree_visual :: selector where
  "sel_tree_visual = [Compound [Class ''PRIVATE_TreeView-item-visual'']]"
definition sel_div_row :: selector where
  "sel_div_row = [Compound [Tag ''div'', AttrEq ''role'' ''row'']]"
definition sel_table_rows :: selector where
  "sel_table_rows = [Descendant [Tag ''tbody''] [Tag ''tr'', Class ''react-directory-row''],
                     Descendant [Tag ''tbody''] [Tag ''tr'', AttrPrefix ''id'' ''folder-row-'']]"
definition sel_tree_item :: selector where
  "sel_tree_item = [Compound [Class ''PRIVATE_TreeView-item-content'']]"

text \<open>\<^verbatim>\<open>if (stats) stats.replaced++\<close>: \<open>None\<close> is a call without \<^verbatim>\<open>stats\<close>.\<close>

definition bump :: "nat option \<Rightarrow> nat option" where
  "bump stats = map_option Suc stats"

text \<open>\<^verbatim>\<open>svg.nextElementSibling?.classList.contains('material-icon-replacement')\<close>.\<close>

definition next_is_replacement :: "dom \<Rightarrow> nat \<Rightarrow> bool" where
  "next_is_replacement d i =
     (case nextElementSibling d i of None \<Rightarrow> False | Some n \<Rightarrow> is_replacement n)"

text \<open>The branch of \<^verbatim>\<open>replaceIconForItem\<close> for the parent directory row.\<close>

definition replaceParentDir :: "icon_mappings \<Rightarrow> elt \<Rightarrow> nat option \<Rightarrow> dom \<Rightarrow> js_error + dom \<times> nat option" where
  "replaceParentDir m parentDirLink stats d =
     (case querySelector d (eid parentDirLink) sel_svg_octicon of
        None \<Rightarrow> Inr (d, stats)
      | Some svg \<Rightarrow>
          if next_is_replacement d (eid svg) then Inr (d, stats)
          else case defaultFolder m of
                 None \<Rightarrow> Inr (d, stats)
               | Some iconDataUri \<Rightarrow>
                   if iconDataUri = [] then Inr (d, stats)
                   else
                     let d1 = hide d (eid svg);
                         (img, d2) = createIconImg d1 (JStr iconDataUri) ''4px''
                     in case insertAfter d2 (eid svg) (Element img []) of
                          None \<Rightarrow> Inl TypeError
                        | Some d3 \<Rightarrow> Inr (d3, bump stats))"


text \<open>\<^verbatim>\<open>e.classList.contains(c)\<close>, \<^verbatim>\<open>e.getAttribute(a)?.includes(pat)\<close> and
  \<^verbatim>\<open>e.getAttribute(a)?.toLowerCase().includes(pat)\<close>.\<close>

definition has_class :: "elt \<Rightarrow> string \<Rightarrow> bool" where
  "has_class e c = (c \<in> set (classes e))"

definition attr_includes :: "elt \<Rightarrow> string \<Rightarrow> string \<Rightarrow> bool" where
  "attr_includes e a pat =
     (case getAttribute e a of None \<Rightarrow> False | Some v \<Rightarrow> str_includes v pat)"

definition attr_lower_includes :: "elt \<Rightarrow> string \<Rightarrow> string \<Rightarrow> bool" where
  "attr_lower_includes e a pat =
     (case getAttribute e a of None \<Rightarrow> False | Some v \<Rightarrow> str_includes (toLowerCase v) pat)"

text \<open>
  The branch for an icon that Refined GitHub has wrapped in an edit link.  The
  \<^verbatim>\<open>while\<close> loop walks the element siblings that follow the edit link for as long as they
  carry the marker class, and removes each; removing one does not change the siblings
  after it, so the loop removes the longest run of marked siblings after the link.
\<close>

definition removeAll :: "dom \<Rightarrow> nat list \<Rightarrow> dom" where
  "removeAll d is = foldl remove d is"

definition replaceInEditLink ::
  "elt \<Rightarrow> jsval \<Rightarrow> nat option \<Rightarrow> dom \<Rightarrow> js_error + dom \<times> nat option" where
  "replaceInEditLink editLink iconDataUri stats d =
     (case querySelector d (eid editLink) sel_replacement_img of
        Some existingIcon \<Rightarrow>
          Inr (removeAll d (map eid (takeWhile is_replacement
                                      (followingElementSiblings d (eid editLink)))), stats)
      | None \<Rightarrow>
          let d1 = (case nextElementSibling d (eid editLink) of
                      None \<Rightarrow> d
                    | Some siblingIcon \<Rightarrow>
                        if is_replacement siblingIcon then remove d (eid siblingIcon) else d)
          in case querySelector d1 (eid editLink) sel_file_svg_not_pencil of
               None \<Rightarrow> Inr (d1, stats)
             | Some fileIconSvg \<Rightarrow>
                 let d2 = hide d1 (eid fileIconSvg);
                     (img, d3) = createIconImg d2 iconDataUri []
                 in Inr (insertFirst d3 (eid editLink) (Element img []), bump stats))"

text \<open>The branch for an icon that is not wrapped.\<close>

definition replaceNormal ::
  "elt \<Rightarrow> jsval \<Rightarrow> nat option \<Rightarrow> dom \<Rightarrow> js_error + dom \<times> nat option" where
  "replaceNormal svg iconDataUri stats d =
     (if next_is_replacement d (eid svg) then Inr (d, stats)
      else
        let d1 = hide d (eid svg);
            (img, d2) = createIconImg d1 iconDataUri (style_get d1 (eid svg) ''marginRight'');
            d3 = (if style_get d2 (eid svg) ''color'' \<noteq> []
                  then style_set d2 (eid img) ''filter'' ''opacity(0.5)'' else d2)
        in case insertAfter d3 (eid svg) (Element img []) of
             None \<Rightarrow> Inl TypeError
           | Some d4 \<Rightarrow> Inr (d4, bump stats))"

text \<open>
  \<^verbatim>\<open>replaceIconForItem(item, stats)\<close>.  \<open>findTargetCell\<close> is
  \<^verbatim>\<open>largeScreenCell || item.querySelector('td')\<close>; \<open>classifyRow\<close> is the part of the source
  from the target cell to \<^verbatim>\<open>if (!iconDataUri) return\<close>: it yields the icon's SVG element
  and the icon chosen, or \<open>None\<close> where the source returns early.
\<close>

definition findTargetCell :: "dom \<Rightarrow> nat \<Rightarrow> elt option" where
  "findTargetCell d item =
     (case querySelector d item sel_large_screen_cell of
        Some largeScreenCell \<Rightarrow> Some largeScreenCell
      | None \<Rightarrow> querySelector d item sel_td)"

definition iconKind :: "bool \<Rightarrow> bool \<Rightarrow> kind" where
  "iconKind isSymlink isFolder = (if isSymlink then Symlink else if isFolder then Folder else File)"

definition classifyRow :: "icon_mappings \<Rightarrow> dom \<Rightarrow> nat \<Rightarrow> (elt \<times> jsval) option" where
  "classifyRow m d item =
     (case findTargetCell d item of
        None \<Rightarrow> None
      | Some targetCell \<Rightarrow>
        (case querySelector d (eid targetCell) sel_name_link of
           None \<Rightarrow> None
         | Some link \<Rightarrow>
           let name0 = trim (textContent d (eid link))
           in if name0 = [] then None
              else
                let name = (if str_includes name0 ''/''
                            then hd (split_on CHR ''/'' name0) else name0)
                in (case querySelector d (eid targetCell) sel_filename_column of
                      None \<Rightarrow> None
                    | Some container \<Rightarrow>
                      (case querySelector d (eid container) sel_file_svg of
                         None \<Rightarrow> None
                       | Some svg \<Rightarrow>
                         let isSymlink = (has_class svg ''octicon-file-symlink-file'' \<or>
                                          has_class svg ''octicon-file-symlink-directory'');
                             isFolder = (attr_includes link ''href'' ''/tree/'' \<or>
                                         attr_lower_includes svg ''aria-label'' ''directory'' \<or>
                                         attr_lower_includes svg ''aria-label'' ''folder'');
                             iconDataUri = resolve m (iconKind isSymlink isFolder) name
                         in if \<not> truthy iconDataUri then None
                            else Some (svg, iconDataUri)))))"

definition replaceIconForItem ::
  "icon_mappings \<Rightarrow> nat \<Rightarrow> nat option \<Rightarrow> dom \<Rightarrow> js_error + dom \<times> nat option" where
  "replaceIconForItem m item stats d =
     (case querySelector d item sel_up_tree of
        Some parentDirLink \<Rightarrow> replaceParentDir m parentDirLink stats d
      | None \<Rightarrow>
        (case classifyRow m d item of
           None \<Rightarrow> Inr (d, stats)
         | Some (svg, iconDataUri) \<Rightarrow>
           (case closest d (eid svg) sel_edit_link of
              Some editLink \<Rightarrow> replaceInEditLink editLink iconDataUri stats d
            | None \<Rightarrow> replaceNormal svg iconDataUri stats d)))"

text \<open>
  \<^verbatim>\<open>replaceIconForTreeItem(item, stats)\<close>.  \<open>findTreeIcon\<close> is the source down to the SVG
  element (\<open>None\<close> where it returns early), \<open>treeIcon\<close> the icon chosen from the SVG's
  classes.
\<close>

definition findTreeIcon :: "dom \<Rightarrow> nat \<Rightarrow> (string \<times> elt) option" where
  "findTreeIcon d item =
     (case querySelector d item sel_tree_text_span of
        None \<Rightarrow> None
      | Some filenameSpan \<Rightarrow>
        let name = trim (textContent d (eid filenameSpan))
        in if name = [] then None
           else
             (case querySelector d item sel_tree_visual of
                None \<Rightarrow> None
              | Some visualContainer \<Rightarrow>
                (case querySelector d (eid visualContainer) sel_svg_octicon of
                   None \<Rightarrow> None
                 | Some svg \<Rightarrow> Some (name, svg))))"

definition treeIcon :: "icon_mappings \<Rightarrow> string \<Rightarrow> elt \<Rightarrow> jsval" where
  "treeIcon m name svg =
     (let isSymlink = (has_class svg ''octicon-file-symlink-file'' \<or>
                       has_class svg ''octicon-file-symlink-directory'');
          isFolder = (has_class svg ''octicon-file-directory'' \<or>
                      has_class svg ''octicon-file-directory-fill'' \<or>
                      has_class svg ''octicon-file-directory-open-fill'')
      in resolve m (iconKind isSymlink isFolder) name)"

definition replaceIconForTreeItem ::
  "icon_mappings \<Rightarrow> nat \<Rightarrow> nat option \<Rightarrow> dom \<Rightarrow> js_error + dom \<times> nat option" where
  "replaceIconForTreeItem m item stats d =
     (case findTreeIcon d item of
        None \<Rightarrow> Inr (d, stats)
      | Some (name, svg) \<Rightarrow>
        (case parentNode d (eid svg) of
           None \<Rightarrow> Inl TypeError
         | Some svgParent \<Rightarrow>
           (case querySelector d (eid svgParent) sel_replacement_img of
              Some existingIcon \<Rightarrow> Inr (hide d (eid svg), stats)
            | None \<Rightarrow>
              let iconDataUri = treeIcon m name svg
              in if \<not> truthy iconDataUri then Inr (d, stats)
                 else
                   let d1 = hide d (eid svg);
                       (img, d2) = createIconImg d1 iconDataUri []
                   in Inr (insertBeforeNext d2 (eid svgParent) (eid svg) (Element img []),
                           bump stats))))"

text \<open>\<^verbatim>\<open>items.forEach(item => f(item, stats))\<close>: an exception in one call ends the loop.\<close>

fun forEach ::
  "(nat \<Rightarrow> nat option \<Rightarrow> dom \<Rightarrow> js_error + dom \<times> nat option) \<Rightarrow> nat list \<Rightarrow> nat option \<Rightarrow> dom
     \<Rightarrow> js_error + dom \<times> nat option" where
  "forEach f [] stats d = Inr (d, stats)"
| "forEach f (item # items) stats d =
     (case f item stats d of
        Inl err \<Rightarrow> Inl err
      | Inr (d', stats') \<Rightarrow> forEach f items stats' d')"

text \<open>\<^verbatim>\<open>replaceIcons()\<close>: the result is the document and \<^verbatim>\<open>stats.replaced\<close>.\<close>

definition replaceIcons :: "icon_mappings \<Rightarrow> dom \<Rightarrow> js_error + dom \<times> nat option" where
  "replaceIcons m d =
     (let items0 = document_querySelectorAll d sel_div_row;
          items = (if items0 = [] then document_querySelectorAll d sel_table_rows else items0)
      in case forEach (replaceIconForItem m) (map eid items) (Some 0) d of
           Inl err \<Rightarrow> Inl err
         | Inr (d1, stats1) \<Rightarrow>
             forEach (replaceIconForTreeItem m)
               (map eid (document_querySelectorAll d1 sel_tree_item)) stats1 d1)"


subsection \<open>The mutation observer\<close>

text \<open>
  A mutation record as the callback reads it: its type, its target element, the elements
  among its added nodes and the elements among its removed nodes.  Text nodes are left
  out: the callback skips every node whose \<^verbatim>\<open>nodeType\<close> is not 1.  An added node is
  given by its identity and read in the document as it is when the callback runs.  A
  node that has left the document again by then is still inspected by the source, but
  only within its own detached subtree, and what the source then does stays there; the
  state modelled here is the document, so such a node adds nothing to it.
  \<open>rowsToProcess\<close> is a \<^verbatim>\<open>Set\<close>: \<open>set_add\<close> keeps the first insertion of an element and
  the order of insertion.
\<close>

record mutation =
  mtype :: string
  target :: nat
  addedNodes :: "nat list"
  removedNodes :: "elt list"

definition set_add :: "nat list \<Rightarrow> nat \<Rightarrow> nat list" where
  "set_add rows r = (if r \<in> set rows then rows else rows @ [r])"

definition set_add_opt :: "nat list \<Rightarrow> elt option \<Rightarrow> nat list" where
  "set_add_opt rows r = (case r of None \<Rightarrow> rows | Some e \<Rightarrow> set_add rows (eid e))"

definition sel_row :: selector where
  "sel_row = [Compound [Tag ''div'', AttrEq ''role'' ''row''],
              Compound [Tag ''tr'', Class ''react-directory-row'']]"
definition sel_tr_row :: selector where
  "sel_tr_row = [Compound [Tag ''tr'', Class ''react-directory-row'']]"
definition sel_folder_row :: selector where
  "sel_folder_row = [Compound [Tag ''tr'', AttrPrefix ''id'' ''folder-row-'']]"
definition sel_any_row :: selector where
  "sel_any_row = [Compound [Tag ''div'', AttrEq ''role'' ''row''],
                  Compound [Tag ''tr'', Class ''react-directory-row''],
                  Compound [Tag ''tr'', AttrPrefix ''id'' ''folder-row-'']]"

definition node_matches :: "dom \<Rightarrow> nat \<Rightarrow> selector \<Rightarrow> bool" where
  "node_matches d i sel = (case entry_of d i of None \<Rightarrow> False | Some (anc, e) \<Rightarrow> matches sel anc e)"

definition rows_for_removed :: "dom \<Rightarrow> mutation \<Rightarrow> nat list \<Rightarrow> nat list" where
  "rows_for_removed d mu rows =
     foldl (\<lambda>rows node.
              if is_replacement node then set_add_opt rows (closest d (target mu) sel_row)
              else rows)
       rows (removedNodes mu)"

definition rows_for_attributes :: "dom \<Rightarrow> mutation \<Rightarrow> nat list \<Rightarrow> nat list" where
  "rows_for_attributes d mu rows =
     (case entry_of d (target mu) of
        None \<Rightarrow> rows
      | Some (anc, svg) \<Rightarrow>
          if mtype mu = ''attributes'' \<and> tag svg = ''svg''
             \<and> attr_includes svg ''class'' ''octicon-file''
             \<and> style_get d (eid svg) ''visibility'' \<noteq> ''hidden''
          then set_add_opt rows (closest d (eid svg) sel_row)
          else rows)"

definition rows_for_added_node :: "dom \<Rightarrow> nat list \<Rightarrow> nat \<Rightarrow> nat list" where
  "rows_for_added_node d rows node =
     (case entry_of d node of
        None \<Rightarrow> rows
      | Some (anc, e) \<Rightarrow>
          if is_replacement e then rows
          else
            let rows1 = (if matches sel_svg_octicon anc e
                         then set_add_opt rows (closest d node sel_tree_item) else rows);
                rows2 = (if matches sel_div_row anc e \<or> matches sel_tr_row anc e
                            \<or> matches sel_folder_row anc e
                         then set_add rows1 node
                         else foldl set_add rows1 (map eid (querySelectorAll d node sel_any_row)));
                rows3 = (if matches sel_edit_link anc e
                         then set_add_opt rows2 (closest d node sel_row)
                         else foldl (\<lambda>rows link. set_add_opt rows (closest d (eid link) sel_row))
                                rows2 (querySelectorAll d node sel_edit_link));
                rows4 = (if matches sel_tree_item anc e
                         then set_add rows3 node
                         else foldl set_add rows3 (map eid (querySelectorAll d node sel_tree_item)))
            in rows4)"

definition rows_for_mutation :: "dom \<Rightarrow> nat list \<Rightarrow> mutation \<Rightarrow> nat list" where
  "rows_for_mutation d rows mu =
     foldl (rows_for_added_node d)
       (rows_for_attributes d mu (rows_for_removed d mu rows)) (addedNodes mu)"

text \<open>The callback of the observer: it collects the rows and tree items of a batch of
  mutation records on the document as it stands, then processes each once.\<close>

definition process_item ::
  "icon_mappings \<Rightarrow> nat \<Rightarrow> nat option \<Rightarrow> dom \<Rightarrow> js_error + dom \<times> nat option" where
  "process_item m item stats d =
     (if node_matches d item sel_tree_item then replaceIconForTreeItem m item stats d
      else replaceIconForItem m item stats d)"

definition observer_callback :: "icon_mappings \<Rightarrow> mutation list \<Rightarrow> dom \<Rightarrow> js_error + dom" where
  "observer_callback m mutations d =
     (let rowsToProcess = foldl (rows_for_mutation d) [] mutations
      in case forEach (process_item m) rowsToProcess None d of
           Inl err \<Rightarrow> Inl err
         | Inr (d', stats) \<Rightarrow> Inr d')"


section \<open>Calls of the resolution functions\<close>








section \<open>Properties of rows\<close>

text \<open>A row in which the scan cannot find one of the elements it looks for: the target
  cell, the name link in it, the filename column in it, or the icon's SVG element in
  that column.\<close>

definition malformed_row :: "dom \<Rightarrow> nat \<Rightarrow> bool" where
  "malformed_row d item =
     (case findTargetCell d item of
        None \<Rightarrow> True
      | Some targetCell \<Rightarrow>
          querySelector d (eid targetCell) sel_name_link = None
          \<or> (case querySelector d (eid targetCell) sel_filename_column of
                None \<Rightarrow> True
              | Some container \<Rightarrow> querySelector d (eid container) sel_file_svg = None))"


text \<open>A candidate row in which the scan cannot find what it looks for: in the parent
  directory row the icon's SVG element inside the link, in every other row one of the
  elements above.\<close>

definition malformed_item :: "dom \<Rightarrow> nat \<Rightarrow> bool" where
  "malformed_item d item =
     (case querySelector d item sel_up_tree of
        Some parentDirLink \<Rightarrow> querySelector d (eid parentDirLink) sel_svg_octicon = None
      | None \<Rightarrow> malformed_row d item)"

text \<open>An item of the tree view in which the scan cannot find the span of the name, the
  container of the icon, or the icon's SVG element in that container.\<close>

definition malformed_tree_item :: "dom \<Rightarrow> nat \<Rightarrow> bool" where
  "malformed_tree_item d item =
     (querySelector d item sel_tree_text_span = None
      \<or> (case querySelector d item sel_tree_visual of
            None \<Rightarrow> True
          | Some visualContainer \<Rightarrow> querySelector d (eid visualContainer) sel_svg_octicon = None))"

section \<open>Well-formed pages and what a step may change\<close>

text \<open>The elements of a child list, and the elements, identities and entries of a list of
  sibling trees.  \<open>childless r T\<close>: the element \<open>r\<close>, where it occurs in \<open>T\<close>, has no child node.\<close>

fun elts_of :: "node list \<Rightarrow> elt list" where
  "elts_of [] = []"
| "elts_of (Element e cs # ns) = e # elts_of ns"
| "elts_of (Text t # ns) = elts_of ns"

fun childless :: "nat \<Rightarrow> node \<Rightarrow> bool" where
  "childless r (Text t) = True"
| "childless r (Element e cs) = ((eid e = r \<longrightarrow> cs = []) \<and> list_all (childless r) cs)"

definition centries :: "elt list \<Rightarrow> node list \<Rightarrow> (elt list \<times> elt) list" where
  "centries a cs = concat (map (entries a) cs)"

definition ctexts :: "elt list \<Rightarrow> node list \<Rightarrow> (elt list \<times> string) list" where
  "ctexts a cs = concat (map (texts a) cs)"

text \<open>\<open>elems\<close> lists the elements of a tree in document order; \<open>udist\<close> says that no two of
  them share an identity.\<close>

fun elems :: "node \<Rightarrow> elt list" where
  "elems (Text t) = []"
| "elems (Element e cs) = e # concat (map elems cs)"

definition celems :: "node list \<Rightarrow> elt list" where
  "celems cs = concat (map elems cs)"

definition idset :: "node \<Rightarrow> nat set" where
  "idset T = eid ` set (elems T)"

definition cidset :: "node list \<Rightarrow> nat set" where
  "cidset cs = eid ` set (celems cs)"

definition udist :: "node \<Rightarrow> bool" where
  "udist T = distinct (map eid (elems T))"

definition cudist :: "node list \<Rightarrow> bool" where
  "cudist cs = distinct (map eid (celems cs))"

text \<open>What \<open>insert_after_in\<close> does to the list of element children.\<close>

fun insert_elt_after :: "nat \<Rightarrow> elt \<Rightarrow> elt list \<Rightarrow> elt list" where
  "insert_elt_after i n [] = []"
| "insert_elt_after i n (e # es) = (if eid e = i then e # n # es else e # insert_elt_after i n es)"

text \<open>A well-formed page.  Identities are unique and below the next fresh one (\<open>ids_ok\<close>); an
  element that carries the marker class is an image as \<open>createIconImg\<close> makes it, with no other
  class and with nothing inside it (\<open>marked_ok\<close>); no file icon carries the class of the pencil
  icon (\<open>pencil_ok\<close>).  Two documents are \<open>similar\<close> when they have the same elements apart
  from marked images, with the same ancestors and in the same order, and the same text.\<close>

definition repl_elt :: "elt \<Rightarrow> bool" where
  "repl_elt e = (tag e = ''img'' \<and> classes e = [replacement_class])"

definition ids_ok :: "dom \<Rightarrow> bool" where
  "ids_ok d = (udist (root d) \<and> (\<forall>i \<in> idset (root d). i < fresh d))"

definition marked_ok :: "dom \<Rightarrow> bool" where
  "marked_ok d =
     ((\<forall>x \<in> set (doc_entries d).
          (is_replacement (snd x) \<longrightarrow> repl_elt (snd x)) \<and> (\<forall>q \<in> set (fst x). \<not> is_replacement q))
      \<and> (\<forall>x \<in> set (texts [] (root d)). \<forall>q \<in> set (fst x). \<not> is_replacement q))"

definition pencil_ok :: "dom \<Rightarrow> bool" where
  "pencil_ok d =
     (\<forall>x \<in> set (doc_entries d).
         matches sel_file_svg (fst x) (snd x) \<longrightarrow> \<not> has_class (snd x) ''octicon-pencil'')"

definition page_ok :: "dom \<Rightarrow> bool" where
  "page_ok d = (ids_ok d \<and> marked_ok d \<and> pencil_ok d)"

definition similar :: "dom \<Rightarrow> dom \<Rightarrow> bool" where
  "similar d d' =
     (filter (\<lambda>x. \<not> is_replacement (snd x)) (doc_entries d')
        = filter (\<lambda>x. \<not> is_replacement (snd x)) (doc_entries d)
      \<and> texts [] (root d') = texts [] (root d))"

text \<open>A selector that no injected image matches.\<close>

definition rejects_repl :: "selector \<Rightarrow> bool" where
  "rejects_repl sel = (\<forall>a e. repl_elt e \<longrightarrow> \<not> matches sel a e)"

text \<open>The element after the element \<open>i\<close> in a list of siblings.\<close>

definition next_in :: "nat \<Rightarrow> elt list \<Rightarrow> elt option" where
  "next_in i es = (case drop 1 (dropWhile (\<lambda>e. eid e \<noteq> i) es) of [] \<Rightarrow> None | e # _ \<Rightarrow> Some e)"

text \<open>\<open>has_repl d E\<close> is the test \<^verbatim>\<open>E.querySelector('img.material-icon-replacement')\<close> of the
  engine.  A change from \<open>d\<close> to \<open>d'\<close> is \<open>good\<close> when both are well-formed and similar, every
  icon followed by an injected image is still followed by one, and every element that holds
  an injected image still holds one.\<close>

definition has_repl :: "dom \<Rightarrow> nat \<Rightarrow> bool" where
  "has_repl d E = (querySelector d E sel_replacement_img \<noteq> None)"

definition keeps_next :: "dom \<Rightarrow> dom \<Rightarrow> bool" where
  "keeps_next d d' =
     (\<forall>x \<in> set (doc_entries d). tag (snd x) = ''svg'' \<longrightarrow>
        next_is_replacement d (eid (snd x)) \<longrightarrow> next_is_replacement d' (eid (snd x)))"

definition keeps_repl :: "dom \<Rightarrow> dom \<Rightarrow> bool" where
  "keeps_repl d d' = (\<forall>E. has_repl d E \<longrightarrow> has_repl d' E)"

definition good :: "dom \<Rightarrow> dom \<Rightarrow> bool" where
  "good d d' = (page_ok d \<and> page_ok d' \<and> similar d d' \<and> keeps_next d d' \<and> keeps_repl d d')"

text \<open>What the engine reads of the page is the same in \<open>d\<close> and \<open>d'\<close>.\<close>

definition struct :: "dom \<Rightarrow> dom \<Rightarrow> bool" where
  "struct d d' = (similar d d' \<and> marked_ok d \<and> marked_ok d' \<and> udist (root d) \<and> udist (root d'))"

text \<open>A row, or an item of the tree view, is settled when the engine finds nothing to insert
  for it: each test is the one the source makes before it inserts.\<close>

definition row_settled :: "icon_mappings \<Rightarrow> dom \<Rightarrow> nat \<Rightarrow> bool" where
  "row_settled m d X =
     (case querySelector d X sel_up_tree of
        Some L \<Rightarrow>
          (case querySelector d (eid L) sel_svg_octicon of
             None \<Rightarrow> True
           | Some svg \<Rightarrow>
               next_is_replacement d (eid svg) \<or>
               (case defaultFolder m of None \<Rightarrow> True | Some u \<Rightarrow> u = []))
      | None \<Rightarrow>
          (case classifyRow m d X of
             None \<Rightarrow> True
           | Some (svg, icon) \<Rightarrow>
               (case closest d (eid svg) sel_edit_link of
                  Some E \<Rightarrow> has_repl d (eid E)
                | None \<Rightarrow> next_is_replacement d (eid svg))))"

definition tree_settled :: "icon_mappings \<Rightarrow> dom \<Rightarrow> nat \<Rightarrow> bool" where
  "tree_settled m d T =
     (case findTreeIcon d T of
        None \<Rightarrow> True
      | Some (name, svg) \<Rightarrow>
          (case parentNode d (eid svg) of
             None \<Rightarrow> False
           | Some P \<Rightarrow> has_repl d (eid P) \<or> \<not> truthy (treeIcon m name svg)))"

text \<open>A change that adds no element and makes no new identity.\<close>

definition quiet :: "dom \<Rightarrow> dom \<Rightarrow> bool" where
  "quiet d d' = (good d d' \<and> fresh d' = fresh d \<and> set (doc_entries d') \<subseteq> set (doc_entries d))"

text \<open>An element is suppressed when its \<^verbatim>\<open>style.visibility\<close> is \<^verbatim>\<open>hidden\<close>; \<open>is_edit_link\<close> is
  the test \<^verbatim>\<open>a.rgh-quick-file-edit\<close>.  An injected image is \<open>anchored\<close> when it is the element
  right after a suppressed SVG element, or the first element of an edit link that holds a
  suppressed SVG element; a suppressed element is \<open>covered\<close> when its parent, or an edit
  link above it, holds an injected image.  In a \<open>paired\<close> document every injected image
  is anchored and every suppressed element is covered; in a \<open>single\<close> one no injected
  image is followed by another.\<close>

definition hidden :: "dom \<Rightarrow> nat \<Rightarrow> bool" where
  "hidden d i = (style_get d i ''visibility'' = ''hidden'')"

definition is_edit_link :: "elt \<Rightarrow> bool" where
  "is_edit_link e = (tag e = ''a'' \<and> has_class e ''rgh-quick-file-edit'')"

definition anchored :: "dom \<Rightarrow> elt list \<times> elt \<Rightarrow> bool" where
  "anchored d x =
     (case fst x of
        [] \<Rightarrow> False
      | p # a \<Rightarrow>
          (\<exists>s \<in> set (elementChildren d (eid p)).
              tag s = ''svg'' \<and> hidden d (eid s) \<and> nextElementSibling d (eid s) = Some (snd x))
          \<or> (is_edit_link p
              \<and> (case elementChildren d (eid p) of [] \<Rightarrow> False | c # cs \<Rightarrow> c = snd x)
              \<and> (\<exists>y \<in> set (doc_entries d).
                    p \<in> set (fst y) \<and> tag (snd y) = ''svg'' \<and> hidden d (eid (snd y)))))"

definition covered :: "dom \<Rightarrow> elt list \<times> elt \<Rightarrow> bool" where
  "covered d x =
     (case fst x of
        [] \<Rightarrow> False
      | p # a \<Rightarrow>
          has_repl d (eid p)
          \<or> (\<exists>E \<in> set (p # a). is_edit_link E \<and> has_repl d (eid E)))"

definition paired :: "dom \<Rightarrow> bool" where
  "paired d =
     (\<forall>x \<in> set (doc_entries d).
        (is_replacement (snd x) \<longrightarrow> anchored d x) \<and> (hidden d (eid (snd x)) \<longrightarrow> covered d x))"


text \<open>The two insertions of the engine, each with the suppression that comes with it:
  \<open>d'\<close> is \<open>d\<close> with the element \<open>s\<close> suppressed and a new image after it, or with \<open>f\<close>
  suppressed and a new image as the first child of \<open>E\<close>.\<close>

definition inserted_after :: "dom \<Rightarrow> elt \<Rightarrow> dom \<Rightarrow> bool" where
  "inserted_after d s d' =
     (\<exists>p a d2 n. (p # a, s) \<in> set (doc_entries d) \<and> root d2 = root d
        \<and> fresh d2 = Suc (fresh d) \<and> eid n = fresh d \<and> repl_elt n
        \<and> (\<forall>i. hidden d2 i = (i \<noteq> eid n \<and> (hidden d i \<or> i = eid s)))
        \<and> d' = insertBeforeNext d2 (eid p) (eid s) (Element n []))"

definition prepended :: "dom \<Rightarrow> elt \<Rightarrow> elt \<Rightarrow> dom \<Rightarrow> bool" where
  "prepended d E f d' =
     (\<exists>d3 n. root d3 = root d \<and> fresh d3 = Suc (fresh d) \<and> eid n = fresh d \<and> repl_elt n
        \<and> (\<forall>i. hidden d3 i = (i \<noteq> eid n \<and> (hidden d i \<or> i = eid f)))
        \<and> d' = insertFirst d3 (eid E) (Element n []))"

text \<open>The two lists that \<open>replaceIcons\<close> walks, and a document in which every item of both is
  settled.\<close>

definition row_items :: "dom \<Rightarrow> nat list" where
  "row_items d =
     (let items0 = document_querySelectorAll d sel_div_row;
          items = (if items0 = [] then document_querySelectorAll d sel_table_rows else items0)
      in map eid items)"

definition tree_items :: "dom \<Rightarrow> nat list" where
  "tree_items d = map eid (document_querySelectorAll d sel_tree_item)"

definition settled :: "icon_mappings \<Rightarrow> dom \<Rightarrow> bool" where
  "settled m d =
     (page_ok d \<and> (\<forall>X \<in> set (row_items d). row_settled m d X)
      \<and> (\<forall>T \<in> set (tree_items d). tree_settled m d T))"




section \<open>Example inputs\<close>

definition m_ex :: icon_mappings where
  "m_ex = \<lparr> extensions = [''php'' \<mapsto> ''data:php'', ''xml'' \<mapsto> ''data:xml'',
                           ''env'' \<mapsto> ''data:tune''],
            filenames = [''Makefile'' \<mapsto> ''data:makefile'',
                          ''composer.json'' \<mapsto> ''data:composer''],
            folders = [''github'' \<mapsto> ''data:folder-github'', ''foo'' \<mapsto> ''data:folder-foo''],
            defaultFile = Some ''data:file'',
            defaultFolder = Some ''data:folder'',
            symlink = ''data:symlink'' \<rparr>"

text \<open>A folder icon record with a nested object before its \<^verbatim>\<open>folderNames\<close>.\<close>

definition nested_record :: string where
  "nested_record = ''{ name: 'folder-src', rules: { light: true }, folderNames: ['src'] }''"

text \<open>A page with a parent directory row, a file row, a row still without its link, and
  one item of the tree view.\<close>

definition el :: "nat \<Rightarrow> string \<Rightarrow> string list \<Rightarrow> (string \<times> string) list \<Rightarrow> node list \<Rightarrow> node" where
  "el i t cls ats cs = Element \<lparr>eid = i, tag = t, classes = cls, attrs = ats\<rparr> cs"

definition page :: node where
  "page =
    el 0 ''body'' [] []
     [el 1 ''table'' [] []
       [el 2 ''tbody'' [] []
         [el 3 ''tr'' [] [(''id'', ''folder-row-0'')]
           [el 4 ''td'' [] []
             [el 5 ''a'' [] [(''data-testid'', ''up-tree''), (''href'', ''/o/r/tree/main'')]
               [el 6 ''svg'' [''octicon'', ''octicon-file-directory-fill''] [] [], Text ''..'']]],
          el 10 ''tr'' [''react-directory-row''] [(''id'', ''folder-row-1'')]
           [el 11 ''td'' [''react-directory-row-name-cell-small-screen''] [] [],
            el 12 ''td'' [''react-directory-row-name-cell-large-screen''] []
             [el 13 ''div'' [''react-directory-filename-column''] []
               [el 14 ''svg'' [''octicon'', ''octicon-file''] [] [el 15 ''path'' [] [] []],
                el 16 ''div'' [] []
                 [el 17 ''a'' [''Link--primary''] [(''href'', ''/o/r/blob/main/index.php'')]
                   [Text '' index.php '']]]]],
          el 20 ''tr'' [''react-directory-row''] [(''id'', ''folder-row-2'')]
           [el 21 ''td'' [] [] [Text ''loading'']]]],
      el 30 ''ul'' [] [(''role'', ''tree'')]
       [el 31 ''li'' [''PRIVATE_TreeView-item''] []
         [el 32 ''div'' [''PRIVATE_TreeView-item-content''] []
           [el 33 ''div'' [''PRIVATE_TreeView-item-visual''] []
             [el 34 ''div'' [''PRIVATE_TreeView-directory-icon''] []
               [el 35 ''svg'' [''octicon'', ''octicon-file-directory-fill''] [] []]],
            el 36 ''span'' [''PRIVATE_TreeView-item-content-text''] []
             [el 37 ''span'' [] [] [Text ''.github'']]]]]]"

definition page_dom :: dom where
  "page_dom = \<lparr>root = page, styles = (\<lambda>i. Map.empty), fresh = 100\<rparr>"

text \<open>A tree view item after its injected image (identity 102) has been taken out again:
  the original icon is still suppressed.  \<open>removed_icon\<close> is the mutation record of that
  removal.\<close>

definition tree_orphan :: dom where
  "tree_orphan =
     \<lparr>root =
        el 0 ''body'' [] []
         [el 30 ''ul'' [] [(''role'', ''tree'')]
           [el 31 ''li'' [''PRIVATE_TreeView-item''] []
             [el 32 ''div'' [''PRIVATE_TreeView-item-content''] []
               [el 33 ''div'' [''PRIVATE_TreeView-item-visual''] []
                 [el 34 ''div'' [''PRIVATE_TreeView-directory-icon''] []
                   [el 35 ''svg'' [''octicon'', ''octicon-file-directory-fill''] [] []]],
                el 36 ''span'' [''PRIVATE_TreeView-item-content-text''] []
                 [el 37 ''span'' [] [] [Text ''.github'']]]]]],
      styles = (\<lambda>i. Map.empty)(35 := [''visibility'' \<mapsto> ''hidden'', ''position'' \<mapsto> ''absolute'']),
      fresh = 103\<rparr>"

definition removed_icon :: mutation where
  "removed_icon =
     \<lparr>mtype = ''childList'', target = 34, addedNodes = [],
      removedNodes = [\<lparr>eid = 102, tag = ''img'', classes = [''material-icon-replacement''],
                       attrs = [(''src'', ''data:folder-github''), (''aria-hidden'', ''true'')]\<rparr>]\<rparr>"

text \<open>A tree view with two items: the first still without its icon, the second
  complete.\<close>

definition sidebar_dom :: dom where
  "sidebar_dom =
     \<lparr>root =
        el 0 ''body'' [] []
         [el 30 ''ul'' [] [(''role'', ''tree'')]
           [el 40 ''li'' [''PRIVATE_TreeView-item''] []
             [el 41 ''div'' [''PRIVATE_TreeView-item-content''] []
               [el 42 ''div'' [''PRIVATE_TreeView-item-visual''] [] [],
                el 43 ''span'' [''PRIVATE_TreeView-item-content-text''] []
                 [el 44 ''span'' [] [] [Text ''src'']]]],
            el 50 ''li'' [''PRIVATE_TreeView-item''] []
             [el 51 ''div'' [''PRIVATE_TreeView-item-content''] []
               [el 52 ''div'' [''PRIVATE_TreeView-item-visual''] []
                 [el 53 ''svg'' [''octicon'', ''octicon-file''] [] []],
                el 54 ''span'' [''PRIVATE_TreeView-item-content-text''] []
                 [el 55 ''span'' [] [] [Text ''index.php'']]]]]],
      styles = (\<lambda>i. Map.empty),
      fresh = 100\<rparr>"



section \<open>Strings and property lookup: auxiliary facts\<close>

lemma split_on_not_Nil: "split_on c s \<noteq> []"
  by (induction s) (auto split: list.splits)

lemma split_on_no_sep: "c \<notin> set s \<Longrightarrow> split_on c s = [s]"
  by (induction s) auto

lemma split_on_append_sep:
  "c \<notin> set a \<Longrightarrow> split_on c (a @ c # rest) = a # split_on c rest"
  by (induction a) auto

lemma split_on_join:
  "segs \<noteq> [] \<Longrightarrow> \<forall>s \<in> set segs. c \<notin> set s \<Longrightarrow> split_on c (join [c] segs) = segs"
proof (induction "[c]" segs rule: join.induct)
  case 1 then show ?case by simp
next
  case (2 p) then show ?case by (simp add: split_on_no_sep)
next
  case (3 p q ps)
  then show ?case by (simp add: split_on_append_sep)
qed

lemma join_has_sep: "2 \<le> length segs \<Longrightarrow> c \<in> set (join [c] segs)"
  by (induction "[c]" segs rule: join.induct) auto

lemma split2:
  "CHR ''.'' \<notin> set a \<Longrightarrow> CHR ''.'' \<notin> set b \<Longrightarrow> split_on CHR ''.'' (a @ ''.'' @ b) = [a, b]"
  by (simp add: split_on_append_sep split_on_no_sep)

lemma split3:
  "CHR ''.'' \<notin> set a \<Longrightarrow> CHR ''.'' \<notin> set b \<Longrightarrow> CHR ''.'' \<notin> set c \<Longrightarrow>
   split_on CHR ''.'' (a @ ''.'' @ b @ ''.'' @ c) = [a, b, c]"
  by (simp add: split_on_append_sep split_on_no_sep)

lemma proto_key_no_dot:
  "k = ''__proto__'' \<or> k \<in> set object_prototype_keys \<Longrightarrow> CHR ''.'' \<notin> set k"
  unfolding object_prototype_keys_def by (elim disjE) (simp, fastforce)

text \<open>A key with a dot in it is read from the table alone: nothing of
  \<^verbatim>\<open>Object.prototype\<close> has such a name.\<close>

lemma js_get_dotted:
  "CHR ''.'' \<in> set k \<Longrightarrow> js_get t k = (case t k of Some v \<Rightarrow> JStr v | None \<Rightarrow> JUndefined)"
  using proto_key_no_dot[of k] by (cases "t k") (auto simp: js_get_def)

text \<open>A lower-cased key names a member of \<^verbatim>\<open>Object.prototype\<close> only when it is
  \<^verbatim>\<open>constructor\<close>: every other member has an upper-case letter in its name, or is the
  accessor \<^verbatim>\<open>__proto__\<close>.\<close>

lemma toLowerCase_char_not_upper:
  "\<not> (65 \<le> (of_char (toLowerCase_char c) :: nat) \<and> (of_char (toLowerCase_char c) :: nat) \<le> 90)"
proof -
  let ?n = "of_char c :: nat"
  have lt: "?n < 256" by simp
  show ?thesis
  proof (cases "(65 \<le> ?n \<and> ?n \<le> 90) \<or> (192 \<le> ?n \<and> ?n \<le> 222 \<and> ?n \<noteq> 215)")
    case True
    then have "toLowerCase_char c = char_of (?n + 32)" by (simp add: toLowerCase_char_def Let_def)
    moreover have "(of_char (char_of (?n + 32)) :: nat) = ?n + 32" using True by auto
    ultimately show ?thesis using True by auto
  next
    case False
    then have "toLowerCase_char c = c" by (auto simp: toLowerCase_char_def Let_def)
    with False show ?thesis by auto
  qed
qed

lemma toLowerCase_no_upper:
  assumes "c \<in> set (toLowerCase s)"
  shows "\<not> (65 \<le> (of_char c :: nat) \<and> (of_char c :: nat) \<le> 90)"
  using assms toLowerCase_char_not_upper by (auto simp: toLowerCase_def)

lemma lower_proto_key:
  "toLowerCase s \<in> set object_prototype_keys \<longleftrightarrow> toLowerCase s = ''constructor''"
proof
  assume "toLowerCase s = ''constructor''"
  then show "toLowerCase s \<in> set object_prototype_keys" by (simp add: object_prototype_keys_def)
next
  assume k: "toLowerCase s \<in> set object_prototype_keys"
  have up: "c \<notin> set (toLowerCase s)" if "65 \<le> (of_char c :: nat) \<and> (of_char c :: nat) \<le> 90" for c
    using toLowerCase_no_upper[of c s] that by blast
  have "CHR ''O'' \<notin> set (toLowerCase s)" "CHR ''P'' \<notin> set (toLowerCase s)"
    "CHR ''I'' \<notin> set (toLowerCase s)" "CHR ''L'' \<notin> set (toLowerCase s)"
    "CHR ''S'' \<notin> set (toLowerCase s)" "CHR ''G'' \<notin> set (toLowerCase s)"
    by (rule up, simp)+
  with k show "toLowerCase s = ''constructor''"
    unfolding object_prototype_keys_def by (elim disjE | simp | fastforce)+
qed

lemmas eval_defs =
  getFileIcon_def getFolderIcon_def js_get_def or_null_def Let_def toLowerCase_def
  toLowerCase_char_def char_of_eq_iff object_prototype_keys_def startsWith_dot_def
  substring1_def resolve_def

section \<open>File resolution\<close>

text \<open>
  C1, as the code has it.  For a name of at least two dot-separated segments with no
  entry of its own in the filename table, the result is given in full.  The
  compound-extension steps run for a name of at least \<^emph>\<open>three\<close> segments
  (\<^verbatim>\<open>parts.length > 2\<close>): the name without its last segment is looked up in the filename
  table first, and when that finds nothing the second-to-last segment, lower-cased, is
  looked up in the extension table; either hit is returned, whatever the extension table
  holds for the last segment.  A name of exactly two segments goes straight to the lookup
  of its last segment, lower-cased, in the extension table.  When nothing is found the
  result is the default file icon, or \<^verbatim>\<open>null\<close> when there is none.
\<close>

theorem getFileIcon_compound:
  assumes segs: "2 \<le> length segs" "\<forall>s \<in> set segs. CHR ''.'' \<notin> set s"
    and noexact: "filenames m (join ''.'' segs) = None"
  shows "getFileIcon m (join ''.'' segs) =
     (let stripped = js_get (filenames m) (join ''.'' (butlast segs));
          second = js_get (extensions m) (toLowerCase (segs ! (length segs - 2)));
          final = js_get (extensions m) (toLowerCase (last segs))
      in if 3 \<le> length segs \<and> truthy stripped then stripped
         else if 3 \<le> length segs \<and> truthy second then second
         else if truthy final then final
         else (case defaultFile m of None \<Rightarrow> JNull | Some d \<Rightarrow> if d = [] then JNull else JStr d))"
proof -
  from segs have ne: "segs \<noteq> []" by auto
  have sp: "split_on CHR ''.'' (join ''.'' segs) = segs"
    using split_on_join[OF ne segs(2)] by simp
  have "CHR ''.'' \<in> set (join ''.'' segs)"
    using join_has_sep[of segs "CHR ''.''"] segs(1) by simp
  then have ex: "js_get (filenames m) (join ''.'' segs) = JUndefined"
    using noexact by (simp add: js_get_dotted)
  have la: "segs ! (length segs - 1) = last segs" using ne by (simp add: last_conv_nth)
  have df: "or_null (defaultFile m)
              = (case defaultFile m of None \<Rightarrow> JNull | Some d \<Rightarrow> if d = [] then JNull else JStr d)"
    by (simp add: or_null_def split: option.splits)
  have gt: "(2 < length segs) = (3 \<le> length segs)" "1 < length segs"
    using segs(1) by auto
  show ?thesis
    unfolding getFileIcon_def sp ex Let_def la df gt using gt(2) by simp
qed

theorem getFileIcon_compound_witness:
  "getFileIcon m_ex ''phpcs.xml.dist'' = JStr ''data:xml''
   \<and> getFileIcon m_ex ''composer.json.bak'' = JStr ''data:composer''
   \<and> getFileIcon m_ex ''Makefile.in.dist'' = JStr ''data:file''
   \<and> getFileIcon m_ex ''Makefile.php'' = JStr ''data:php''
   \<and> getFileIcon m_ex ''Makefile.txt'' = JStr ''data:file''
   \<and> getFileIcon (m_ex\<lparr>defaultFile := None\<rparr>) ''Makefile.txt'' = JNull
   \<and> filenames m_ex ''phpcs.xml.dist'' = None \<and> filenames m_ex ''Makefile.php'' = None"
  using getFileIcon_compound[of "[''phpcs'', ''xml'', ''dist'']" m_ex]
        getFileIcon_compound[of "[''composer'', ''json'', ''bak'']" m_ex]
        getFileIcon_compound[of "[''Makefile'', ''in'', ''dist'']" m_ex]
        getFileIcon_compound[of "[''Makefile'', ''php'']" m_ex]
        getFileIcon_compound[of "[''Makefile'', ''txt'']" m_ex]
        getFileIcon_compound[of "[''Makefile'', ''txt'']" "m_ex\<lparr>defaultFile := None\<rparr>"]
  by (simp add: m_ex_def js_get_def toLowerCase_def toLowerCase_char_def char_of_eq_iff
      object_prototype_keys_def Let_def)

text \<open>
  C1 as stated fails for a name of exactly two segments: \<^verbatim>\<open>Makefile.php\<close> has no entry
  of its own, the name without its last segment, \<^verbatim>\<open>Makefile\<close>, has one, and the result
  is the icon of the extension \<^verbatim>\<open>php\<close>.
\<close>

theorem getFileIcon_two_segments_counterexample:
  "split_on CHR ''.'' ''Makefile.php'' = [''Makefile'', ''php'']
   \<and> filenames m_ex ''Makefile.php'' = None
   \<and> js_get (filenames m_ex) (join ''.'' (butlast (split_on CHR ''.'' ''Makefile.php'')))
       = JStr ''data:makefile''
   \<and> getFileIcon m_ex ''Makefile.php'' = JStr ''data:php''"
  by (simp add: m_ex_def eval_defs)

text \<open>
  C2.  A name \<^verbatim>\<open>base.ext.suffix\<close> with no entry in the filename table, neither for the
  full name nor for \<^verbatim>\<open>base.ext\<close>, gets the icon the extension table holds for \<^verbatim>\<open>ext\<close>
  in lower case; that is the icon of every two-segment name without an entry of its own
  whose extension is \<^verbatim>\<open>ext\<close> in any mix of upper and lower case.
\<close>

theorem getFileIcon_base_ext_suffix:
  assumes nodot: "CHR ''.'' \<notin> set base" "CHR ''.'' \<notin> set ext" "CHR ''.'' \<notin> set suffix"
    and nofull: "filenames m (base @ ''.'' @ ext @ ''.'' @ suffix) = None"
    and nostripped: "filenames m (base @ ''.'' @ ext) = None"
    and icon: "js_get (extensions m) (toLowerCase ext) = JStr icon" "icon \<noteq> []"
  shows "getFileIcon m (base @ ''.'' @ ext @ ''.'' @ suffix) = JStr icon
       \<and> (\<forall>other ext'. CHR ''.'' \<notin> set other \<and> CHR ''.'' \<notin> set ext' \<and>
             toLowerCase ext' = toLowerCase ext \<and> filenames m (other @ ''.'' @ ext') = None \<longrightarrow>
             getFileIcon m (other @ ''.'' @ ext') = JStr icon)"
proof (intro conjI allI impI)
  have full: "js_get (filenames m) (base @ ''.'' @ ext @ ''.'' @ suffix) = JUndefined"
    using nofull by (simp add: js_get_dotted)
  have stripped: "js_get (filenames m) (base @ ''.'' @ ext) = JUndefined"
    using nostripped by (simp add: js_get_dotted)
  show "getFileIcon m (base @ ''.'' @ ext @ ''.'' @ suffix) = JStr icon"
    using full stripped icon split3[OF nodot]
    by (simp add: getFileIcon_def Let_def)
next
  fix other ext'
  assume h: "CHR ''.'' \<notin> set other \<and> CHR ''.'' \<notin> set ext' \<and>
             toLowerCase ext' = toLowerCase ext \<and> filenames m (other @ ''.'' @ ext') = None"
  then have "js_get (filenames m) (other @ ''.'' @ ext') = JUndefined"
    by (simp add: js_get_dotted)
  then show "getFileIcon m (other @ ''.'' @ ext') = JStr icon"
    using h icon split2[of other ext']
    by (simp add: getFileIcon_def Let_def)
qed

theorem getFileIcon_base_ext_suffix_witness:
  "getFileIcon m_ex ''phpcs.XML.dist'' = JStr ''data:xml''
   \<and> getFileIcon m_ex ''pom.xml'' = JStr ''data:xml''
   \<and> filenames m_ex ''phpcs.XML.dist'' = None \<and> filenames m_ex ''phpcs.XML'' = None"
  using getFileIcon_base_ext_suffix[of "''phpcs''" "''XML''" "''dist''" m_ex "''data:xml''"]
  by (simp add: m_ex_def eval_defs)

text \<open>
  C10.  A name that is one dot followed by a tail without a dot, with no entry in the
  filename table, is resolved with the whole tail, lower-cased, as its extension.  The
  result is the icon the extension table holds under that key, and the default file icon
  (or \<^verbatim>\<open>null\<close>) when it holds none or an empty one, except for the two keys that name
  something every object inherits: for \<^verbatim>\<open>.constructor\<close> the read
  \<^verbatim>\<open>ICON_MAPPINGS.extensions['constructor']\<close> finds the function \<^verbatim>\<open>Object\<close>, and for
  \<^verbatim>\<open>.__proto__\<close> it finds \<^verbatim>\<open>Object.prototype\<close>; both are truthy and are returned as the
  icon, in any mix of upper and lower case of the tail.
\<close>

theorem getFileIcon_dotfile:
  assumes "CHR ''.'' \<notin> set tail" "filenames m (''.'' @ tail) = None"
  shows "getFileIcon m (''.'' @ tail) =
     (let key = toLowerCase tail;
          dflt = (case defaultFile m of None \<Rightarrow> JNull | Some d \<Rightarrow> if d = [] then JNull else JStr d)
      in if key = ''__proto__'' then JProto ''__proto__''
         else case extensions m key of
                Some icon \<Rightarrow> if icon = [] then dflt else JStr icon
              | None \<Rightarrow> if key = ''constructor'' then JProto ''constructor'' else dflt)"
proof -
  have ex: "js_get (filenames m) (''.'' @ tail) = JUndefined"
    using assms(2) by (simp add: js_get_dotted)
  have sp: "split_on CHR ''.'' (''.'' @ tail) = [[], tail]"
    using assms(1) by (simp add: split_on_no_sep)
  have df: "or_null (defaultFile m)
              = (case defaultFile m of None \<Rightarrow> JNull | Some d \<Rightarrow> if d = [] then JNull else JStr d)"
    by (simp add: or_null_def split: option.splits)
  show ?thesis
    unfolding getFileIcon_def ex sp df
    by (auto simp: Let_def js_get_def lower_proto_key split: option.splits)
qed

theorem getFileIcon_dotfile_witness:
  "getFileIcon m_ex ''.ENV'' = JStr ''data:tune''
   \<and> getFileIcon m_ex ''.foo'' = JStr ''data:file''
   \<and> getFileIcon m_ex ''.Constructor'' = JProto ''constructor''
   \<and> getFileIcon m_ex ''.__proto__'' = JProto ''__proto__''
   \<and> filenames m_ex ''.ENV'' = None \<and> filenames m_ex ''.Constructor'' = None
   \<and> extensions m_ex ''constructor'' = None \<and> defaultFile m_ex = Some ''data:file''
   \<and> js_toString (JProto ''constructor'') = ''function Object() { [native code] }''"
  using getFileIcon_dotfile[of "''ENV''" m_ex] getFileIcon_dotfile[of "''foo''" m_ex]
        getFileIcon_dotfile[of "''Constructor''" m_ex] getFileIcon_dotfile[of "''__proto__''" m_ex]
  by (simp add: m_ex_def toLowerCase_def toLowerCase_char_def char_of_eq_iff Let_def)

section \<open>Folder resolution\<close>

text \<open>
  C3, as the code has it.  One leading dot is stripped, once: a folder name that begins
  with a dot and has no entry in the folder table resolves as the name without that dot
  does, provided the name without it does not begin with a dot itself.
\<close>

theorem getFolderIcon_hidden:
  assumes "startsWith_dot name" "folders m name = None" "\<not> startsWith_dot (substring1 name)"
  shows "getFolderIcon m name = getFolderIcon m (substring1 name)"
proof -
  from assms(1) have "CHR ''.'' \<in> set name"
    by (auto simp: startsWith_dot_def split: list.splits)
  then have "js_get (folders m) name = JUndefined"
    using assms(2) by (simp add: js_get_dotted)
  then show ?thesis
    using assms(1,3) by (simp add: getFolderIcon_def Let_def)
qed

theorem getFolderIcon_hidden_witness:
  "getFolderIcon m_ex ''.github'' = getFolderIcon m_ex ''github''
   \<and> getFolderIcon m_ex ''.github'' = JStr ''data:folder-github''
   \<and> folders m_ex ''.github'' = None"
  using getFolderIcon_hidden[of "''.github''" m_ex]
  by (simp add: m_ex_def eval_defs)

text \<open>
  C3 as stated fails for a name with two leading dots: \<^verbatim>\<open>..foo\<close> has no entry, and
  neither has \<^verbatim>\<open>.foo\<close>, so it gets the default folder icon, while \<^verbatim>\<open>.foo\<close> itself is
  stripped once more and gets the icon of \<^verbatim>\<open>foo\<close>.
\<close>

theorem getFolderIcon_double_dot_counterexample:
  "startsWith_dot ''..foo'' \<and> folders m_ex ''..foo'' = None
   \<and> substring1 ''..foo'' = ''.foo''
   \<and> getFolderIcon m_ex ''..foo'' = JStr ''data:folder''
   \<and> getFolderIcon m_ex ''.foo'' = JStr ''data:folder-foo''"
  by (simp add: m_ex_def eval_defs)

section \<open>Resolution does not depend on earlier calls\<close>







section \<open>Record extraction\<close>

text \<open>
  C9.  On a folder icon record with a nested pair of braces the folder extractor stops
  at the first closing brace and loses the record's \<^verbatim>\<open>folderNames\<close>; the file icon
  extractor, which counts braces, takes the same text to its true end.
\<close>

theorem folderIconBlock_nested_record:
  "folderIconBlock nested_record 0 = Some ''{ name: 'folder-src', rules: { light: true ''
   \<and> fileIconBlock nested_record 0 = Some nested_record"
  by (simp add: folderIconBlock_def fileIconBlock_def nested_record_def indexOf_def
      substring_def)


section \<open>Rows the scan cannot read\<close>

lemma classifyRow_malformed: "malformed_row d item \<Longrightarrow> classifyRow m d item = None"
proof (cases "findTargetCell d item")
  case None
  then show ?thesis by (simp add: classifyRow_def)
next
  case (Some targetCell)
  assume mal: "malformed_row d item"
  show ?thesis
  proof (cases "querySelector d (eid targetCell) sel_name_link")
    case None
    with Some show ?thesis by (simp add: classifyRow_def)
  next
    case link: (Some link)
    show ?thesis
    proof (cases "querySelector d (eid targetCell) sel_filename_column")
      case None
      with Some link show ?thesis by (simp add: classifyRow_def Let_def)
    next
      case container: (Some container)
      with mal Some link have "querySelector d (eid container) sel_file_svg = None"
        by (simp add: malformed_row_def)
      with Some link container show ?thesis by (simp add: classifyRow_def Let_def)
    qed
  qed
qed

section \<open>Removal of an injected image\<close>

text \<open>
  C6.  The image injected for a tree view item is removed while the suppressed original
  stays.  The observer's callback looks for a row above the target of the removal,
  finds none, and processes nothing: the document is as before and the item has no
  injected image, where the claim has exactly one restored.  Processing the tree item
  itself, as the callback does for added nodes, would have restored one.
\<close>

theorem observer_tree_icon_removed:
  "is_replacement (hd (removedNodes removed_icon))
   \<and> style_get tree_orphan 35 ''visibility'' = ''hidden''
   \<and> (case observer_callback m_ex [removed_icon] tree_orphan of
         Inl err \<Rightarrow> False
       | Inr d \<Rightarrow> root d = root tree_orphan \<and> fresh d = fresh tree_orphan
                 \<and> querySelectorAll d 32 sel_replacement_img = [])
   \<and> (case replaceIconForTreeItem m_ex 32 None tree_orphan of
         Inl err \<Rightarrow> False
       | Inr (d, stats) \<Rightarrow> map eid (querySelectorAll d 32 sel_replacement_img) = [103])"
  by code_simp


section \<open>The tree under a change of one child list\<close>

lemma centries_simps [simp]:
  "centries a [] = []"
  "centries a (n # ns) = entries a n @ centries a ns"
  "centries a (xs @ ys) = centries a xs @ centries a ys"
  by (simp_all add: centries_def)

lemma entries_Element [simp]: "entries anc (Element e cs) = (anc, e) # centries (e # anc) cs"
  by (simp add: centries_def)

declare entries.simps(2) [simp del]

lemma centries_map:
  "centries a (map g cs) = concat (map (\<lambda>c. entries a (g c)) cs)"
  by (simp add: centries_def comp_def)

lemma filter_centries:
  "filter P (centries a cs) = concat (map (\<lambda>c. filter P (entries a c)) cs)"
  by (induction cs) auto

lemma filter_centries_map:
  "filter P (centries a (map g cs)) = concat (map (\<lambda>c. filter P (entries a (g c))) cs)"
  by (induction cs) auto

lemma set_centries: "set (centries a cs) = (\<Union>c\<in>set cs. set (entries a c))"
  by (induction cs) auto

text \<open>Filter invariance under a change of one child list.\<close>

lemma entries_modify_filter:
  assumes "\<And>cs a e. eid e = p \<Longrightarrow> filter P (centries (e # a) (f cs)) = filter P (centries (e # a) cs)"
  shows "filter P (entries anc (modify_children p f T)) = filter P (entries anc T)"
proof (induction T arbitrary: anc)
  case (Text t)
  show ?case by simp
next
  case (Element e cs)
  show ?case
  proof (cases "eid e = p")
    case True
    then show ?thesis using assms[of e anc cs] by (simp add: centries_def)
  next
    case False
    have "concat (map (\<lambda>c. filter P (entries (e # anc) (modify_children p f c))) cs)
        = concat (map (\<lambda>c. filter P (entries (e # anc) c)) cs)"
      using Element.IH by (intro arg_cong[where f=concat] map_cong) auto
    then show ?thesis using False
      by (simp add: filter_centries comp_def)
  qed
qed

lemma centries_insert_after_in_filter:
  "(\<forall>x \<in> set (entries a new). \<not> P x) \<Longrightarrow>
   filter P (centries a (insert_after_in i new cs)) = filter P (centries a cs)"
  by (induction cs) auto

lemma entries_insert_filter:
  assumes "\<And>a e. eid e = p \<Longrightarrow> \<not> P (e # a, n)"
  shows "filter P (entries anc (modify_children p (insert_after_in i (Element n [])) T))
       = filter P (entries anc T)"
  by (rule entries_modify_filter) (simp add: centries_insert_after_in_filter assms)

lemma entries_prepend_filter:
  assumes "\<And>a e. eid e = p \<Longrightarrow> \<not> P (e # a, n)"
  shows "filter P (entries anc (modify_children p (Cons (Element n [])) T))
       = filter P (entries anc T)"
  by (rule entries_modify_filter) (simp add: assms)

lemma entries_childless_leaf:
  "childless r (Element e cs) \<Longrightarrow> eid e = r \<Longrightarrow> entries a (Element e cs) = [(a, e)]"
  by simp

lemma centries_remove_filter:
  "list_all (childless r) cs \<Longrightarrow> (\<And>x. eid (snd x) = r \<Longrightarrow> \<not> P x) \<Longrightarrow>
   filter P (centries a (filter (\<lambda>n. node_id n \<noteq> Some r) cs)) = filter P (centries a cs)"
proof (induction cs)
  case Nil
  then show ?case by simp
next
  case (Cons c cs)
  then show ?case by (cases c) auto
qed

lemma entries_remove_filter:
  assumes "childless r T" "\<And>x. eid (snd x) = r \<Longrightarrow> \<not> P x"
  shows "filter P (entries anc (modify_children p (filter (\<lambda>n. node_id n \<noteq> Some r)) T))
       = filter P (entries anc T)"
  using assms(1)
proof (induction T arbitrary: anc)
  case (Text t)
  show ?case by simp
next
  case (Element e cs)
  then have cl: "list_all (childless r) cs" by simp
  show ?case
  proof (cases "eid e = p")
    case True
    then show ?thesis
      using centries_remove_filter[OF cl assms(2), where a="e # anc"] by (simp add: centries_def)
  next
    case False
    have "concat (map (\<lambda>c. filter P (entries (e # anc)
                (modify_children p (filter (\<lambda>n. node_id n \<noteq> Some r)) c))) cs)
        = concat (map (\<lambda>c. filter P (entries (e # anc) c)) cs)"
      using Element.IH cl by (intro arg_cong[where f=concat] map_cong) (auto simp: list_all_iff)
    then show ?thesis using False
      by (simp add: filter_centries comp_def)
  qed
qed

text \<open>Text nodes.\<close>

lemma ctexts_simps [simp]:
  "ctexts a [] = []"
  "ctexts a (n # ns) = texts a n @ ctexts a ns"
  by (simp_all add: ctexts_def)

lemma texts_modify:
  assumes "\<And>cs a. ctexts a (f cs) = ctexts a cs"
  shows "texts anc (modify_children p f T) = texts anc T"
proof (induction T arbitrary: anc)
  case (Text t)
  show ?case by simp
next
  case (Element e cs)
  show ?case
  proof (cases "eid e = p")
    case True
    then show ?thesis using assms[of "e # anc" cs] by (simp add: ctexts_def)
  next
    case False
    show ?thesis using False Element.IH by (simp add: comp_def cong: map_cong)
  qed
qed

lemma ctexts_insert_after_in:
  "texts a new = [] \<Longrightarrow> ctexts a (insert_after_in i new cs) = ctexts a cs"
  by (induction cs) auto

lemma texts_insert:
  "texts anc (modify_children p (insert_after_in i (Element n [])) T) = texts anc T"
  by (rule texts_modify) (simp add: ctexts_insert_after_in)

lemma texts_prepend:
  "texts anc (modify_children p (Cons (Element n [])) T) = texts anc T"
  by (rule texts_modify) simp

lemma ctexts_remove:
  "list_all (childless r) cs \<Longrightarrow>
   ctexts a (filter (\<lambda>n. node_id n \<noteq> Some r) cs) = ctexts a cs"
proof (induction cs)
  case Nil
  then show ?case by simp
next
  case (Cons c cs)
  then show ?case by (cases c) auto
qed

lemma texts_remove:
  assumes "childless r T"
  shows "texts anc (modify_children p (filter (\<lambda>n. node_id n \<noteq> Some r)) T) = texts anc T"
  using assms
proof (induction T arbitrary: anc)
  case (Text t)
  show ?case by simp
next
  case (Element e cs)
  then have cl: "list_all (childless r) cs" by simp
  show ?case
  proof (cases "eid e = p")
    case True
    then show ?thesis using ctexts_remove[OF cl, of "e # anc"] by (simp add: ctexts_def)
  next
    case False
    show ?thesis using False Element.IH cl
      by (simp add: comp_def list_all_iff cong: map_cong)
  qed
qed

lemma celems_simps [simp]:
  "celems [] = []" "celems (n # ns) = elems n @ celems ns"
  by (simp_all add: celems_def)

lemma elems_Element [simp]: "elems (Element e cs) = e # celems cs"
  by (simp add: celems_def)

declare elems.simps(2) [simp del]

lemma idset_simps [simp]:
  "idset (Text t) = {}" "idset (Element e cs) = insert (eid e) (cidset cs)"
  by (simp_all add: idset_def cidset_def)

lemma cidset_simps [simp]:
  "cidset [] = {}" "cidset (n # ns) = idset n \<union> cidset ns"
  "cidset (xs @ ys) = cidset xs \<union> cidset ys"
  by (auto simp: idset_def cidset_def celems_def)

lemma in_idset: "x \<in> set (elems T) \<Longrightarrow> eid x \<in> idset T"
  by (simp add: idset_def)

lemma in_cidset: "x \<in> set (celems cs) \<Longrightarrow> eid x \<in> cidset cs"
  by (simp add: cidset_def)

lemma cidset_member: "c \<in> set cs \<Longrightarrow> idset c \<subseteq> cidset cs"
  by (auto simp: cidset_def idset_def celems_def)

lemma udist_simps [simp]:
  "udist (Text t)" "udist (Element e cs) = (eid e \<notin> cidset cs \<and> cudist cs)"
  by (auto simp: udist_def cudist_def cidset_def)

lemma cudist_simps [simp]:
  "cudist []"
  "cudist (c # cs) = (udist c \<and> cudist cs \<and> idset c \<inter> cidset cs = {})"
  "cudist (xs @ ys) = (cudist xs \<and> cudist ys \<and> cidset xs \<inter> cidset ys = {})"
  by (auto simp: udist_def cudist_def cidset_def idset_def celems_def)

lemma cudist_member: "cudist cs \<Longrightarrow> c \<in> set cs \<Longrightarrow> udist c"
  by (induction cs) auto

lemma child_of_simps [simp]:
  "child_of p ([], x) = False" "child_of p (q # a, x) = (eid q = p)"
  by (simp_all add: child_of_def)

lemma map_snd_entries: "map snd (entries anc T) = elems T"
proof (induction T arbitrary: anc)
  case (Text t)
  show ?case by simp
next
  case (Element e cs)
  have "map snd (centries (e # anc) cs) = celems cs"
    using Element.IH by (induction cs) auto
  then show ?case by simp
qed

lemma map_snd_centries: "map snd (centries a cs) = celems cs"
  by (induction cs) (auto simp: map_snd_entries)

lemma snd_in_elems: "x \<in> set (entries anc T) \<Longrightarrow> snd x \<in> set (elems T)"
proof -
  assume "x \<in> set (entries anc T)"
  then have "snd x \<in> set (map snd (entries anc T))" by simp
  then show ?thesis by (simp only: map_snd_entries)
qed

lemma snd_in_celems: "x \<in> set (centries a cs) \<Longrightarrow> snd x \<in> set (celems cs)"
proof -
  assume "x \<in> set (centries a cs)"
  then have "snd x \<in> set (map snd (centries a cs))" by simp
  then show ?thesis by (simp only: map_snd_centries)
qed

text \<open>The chain of an entry is the chain the traversal started with, or begins with an
  element of the tree.\<close>

lemma chain_head:
  "x \<in> set (entries anc T) \<Longrightarrow>
   fst x = anc \<or> (\<exists>y ys. fst x = y # ys \<and> y \<in> set (elems T))"
proof (induction T arbitrary: anc)
  case (Text t)
  then show ?case by simp
next
  case (Element e cs)
  show ?case
  proof (cases "x = (anc, e)")
    case True
    then show ?thesis by simp
  next
    case False
    with Element.prems obtain c where c: "c \<in> set cs" "x \<in> set (entries (e # anc) c)"
      by (auto simp: set_centries)
    from Element.IH[OF c] have "fst x = e # anc \<or> (\<exists>y ys. fst x = y # ys \<and> y \<in> set (elems c))" .
    moreover have "set (elems c) \<subseteq> set (celems cs)" using c(1) by (auto simp: celems_def)
    ultimately show ?thesis by (auto simp: celems_def)
  qed
qed

lemma cchain_head:
  "x \<in> set (centries a cs) \<Longrightarrow> fst x = a \<or> (\<exists>y ys. fst x = y # ys \<and> y \<in> set (celems cs))"
proof -
  assume "x \<in> set (centries a cs)"
  then obtain c where c: "c \<in> set cs" "x \<in> set (entries a c)" by (auto simp: centries_def)
  from chain_head[OF c(2)] have "fst x = a \<or> (\<exists>y ys. fst x = y # ys \<and> y \<in> set (elems c))" .
  moreover have "set (elems c) \<subseteq> set (celems cs)" using c(1) by (auto simp: celems_def)
  ultimately show ?thesis by auto
qed

lemma no_child_of:
  assumes "p \<notin> idset T" "\<not> child_of p (anc, e0)"
  shows "filter (child_of p) (entries anc T) = []"
proof -
  have "\<not> child_of p x" if "x \<in> set (entries anc T)" for x
    using chain_head[OF that] assms by (cases x) (auto simp: child_of_def dest: in_idset)
  then show ?thesis by (simp add: filter_empty_conv)
qed

lemma direct_children:
  assumes "eid e = p" "p \<notin> cidset cs"
  shows "filter (child_of p) (centries (e # a) cs) = map (Pair (e # a)) (elts_of cs)"
  using assms(2)
proof (induction cs rule: elts_of.induct)
  case 1
  show ?case by simp
next
  case (2 x xs ns)
  have "\<not> child_of p y" if "y \<in> set (centries (x # e # a) xs)" for y
    using cchain_head[OF that] 2(2) by (cases y) (auto dest: in_cidset)
  then have "filter (child_of p) (centries (x # e # a) xs) = []"
    by (simp add: filter_empty_conv)
  with 2 assms(1) show ?case by auto
next
  case (3 t ns)
  then show ?case by simp
qed

lemma set_celems: "set (celems cs) = (\<Union>c\<in>set cs. set (elems c))"
  by (simp add: celems_def)

lemma modify_absent: "p \<notin> idset T \<Longrightarrow> modify_children p f T = T"
proof (induction T)
  case (Text t)
  show ?case by simp
next
  case (Element e cs)
  have "map (modify_children p f) cs = cs"
  proof (intro map_idI)
    fix c assume c: "c \<in> set cs"
    with Element.prems cidset_member[OF c] have "p \<notin> idset c" by auto
    with Element.IH[OF c] show "modify_children p f c = c" .
  qed
  with Element.prems show ?case by auto
qed

lemma cmodify_absent: "p \<notin> cidset cs \<Longrightarrow> map (modify_children p f) cs = cs"
  using cidset_member by (intro map_idI modify_absent) auto

text \<open>The element children of \<open>p\<close> after a change of the child list of \<open>p\<close>.\<close>

lemma children_modify:
  assumes "udist T" "\<And>e0. \<not> child_of p (anc, e0)"
    and fh: "\<And>cs. elts_of (f cs) = fh (elts_of cs)"
    and fids: "\<And>cs. p \<notin> cidset cs \<Longrightarrow> p \<notin> cidset (f cs)"
    and "p \<in> idset T"
  shows "map snd (filter (child_of p) (entries anc (modify_children p f T)))
       = fh (map snd (filter (child_of p) (entries anc T)))"
  using assms(1,2,5)
proof (induction T arbitrary: anc)
  case (Text t)
  then show ?case by simp
next
  case (Element e cs)
  have root: "\<not> child_of p (anc, e)"
    using Element.prems(2) by simp
  show ?case
  proof (cases "eid e = p")
    case True
    with Element.prems(1) have "p \<notin> cidset cs" by auto
    then show ?thesis
      using True root direct_children[of e p "f cs" anc] direct_children[of e p cs anc] fids fh
      by (simp add: comp_def)
  next
    case False
    with Element.prems(3) obtain y where "y \<in> set (celems cs)" "eid y = p" by (auto simp: cidset_def)
    then obtain c where c: "c \<in> set cs" "p \<in> idset c"
      by (auto simp: set_celems cidset_def idset_def)
    then obtain cs1 cs2 where split: "cs = cs1 @ c # cs2" by (meson split_list)
    have d: "cudist (cs1 @ c # cs2)"
      using Element.prems(1) split by simp
    have n1: "p \<notin> cidset cs1" and n2: "p \<notin> cidset cs2"
      using d c(2) by auto
    have same: "map (modify_children p f) cs' = cs'" if "p \<notin> cidset cs'" for cs'
      using that by (rule cmodify_absent)
    have none: "filter (child_of p) (centries (e # anc) cs') = []"
      if "p \<notin> cidset cs'" for cs'
    proof -
      have "\<not> child_of p y" if "y \<in> set (centries (e # anc) cs')" for y
        using cchain_head[OF that] \<open>p \<notin> cidset cs'\<close> False by (cases y) (auto dest: in_cidset)
      then show ?thesis by (simp add: filter_empty_conv)
    qed
    have ih: "map snd (filter (child_of p) (entries (e # anc) (modify_children p f c)))
            = fh (map snd (filter (child_of p) (entries (e # anc) c)))"
      using Element.IH[OF c(1), of "e # anc"] c(2) d False
      by simp
    show ?thesis
      using False root same[OF n1] same[OF n2] none[OF n1] none[OF n2] ih
      by (simp add: split)
  qed
qed

lemma children_other_insert:
  "q \<noteq> p \<Longrightarrow>
   filter (child_of q) (entries anc (modify_children p (insert_after_in i (Element n [])) T))
   = filter (child_of q) (entries anc T)"
  by (rule entries_insert_filter) simp

lemma children_other_prepend:
  "q \<noteq> p \<Longrightarrow>
   filter (child_of q) (entries anc (modify_children p (Cons (Element n [])) T))
   = filter (child_of q) (entries anc T)"
  by (rule entries_prepend_filter) simp

text \<open>Chains are closed under taking suffixes.\<close>

lemma chain_suffix_aux:
  "x \<in> set (entries anc T) \<Longrightarrow>
   \<exists>c. fst x = c @ anc \<and> (\<forall>pre y ys. c = pre @ y # ys \<longrightarrow> (ys @ anc, y) \<in> set (entries anc T))"
proof (induction T arbitrary: anc)
  case (Text t)
  then show ?case by simp
next
  case (Element e cs)
  show ?case
  proof (cases "x = (anc, e)")
    case True
    then show ?thesis by auto
  next
    case False
    with Element.prems obtain c where c: "c \<in> set cs" "x \<in> set (entries (e # anc) c)"
      by (auto simp: set_centries)
    from Element.IH[OF c] obtain ch where ch: "fst x = ch @ e # anc"
      "\<forall>pre y ys. ch = pre @ y # ys \<longrightarrow> (ys @ e # anc, y) \<in> set (entries (e # anc) c)"
      by auto
    have "\<forall>pre y ys. ch @ [e] = pre @ y # ys \<longrightarrow> (ys @ anc, y) \<in> set (entries anc (Element e cs))"
    proof (intro allI impI)
      fix pre y ys assume eq: "ch @ [e] = pre @ y # ys"
      show "(ys @ anc, y) \<in> set (entries anc (Element e cs))"
      proof (cases ys rule: rev_cases)
        case Nil
        with eq have "y = e" by auto
        with Nil show ?thesis by simp
      next
        case (snoc ys' z)
        with eq have "ch = pre @ y # ys'" "z = e" by auto
        with ch(2) have "(ys' @ e # anc, y) \<in> set (entries (e # anc) c)" by blast
        with c(1) snoc \<open>z = e\<close> show ?thesis by (auto simp: set_centries)
      qed
    qed
    with ch(1) show ?thesis by (intro exI[of _ "ch @ [e]"]) simp
  qed
qed

lemma chain_suffix:
  "(pre @ y # ys, x) \<in> set (entries [] T) \<Longrightarrow> (ys, y) \<in> set (entries [] T)"
  using chain_suffix_aux[of "(pre @ y # ys, x)" "[]" T] by auto

lemma udist_cmap:
  assumes "cudist cs"
    and "\<And>c. c \<in> set cs \<Longrightarrow> udist (g c) \<and> idset (g c) \<subseteq> idset c \<union> (if p \<in> idset c then N else {})"
    and "N \<inter> cidset cs = {}"
  shows "cudist (map g cs) \<and> cidset (map g cs) \<subseteq> cidset cs \<union> (if p \<in> cidset cs then N else {})"
  using assms
proof (induction cs)
  case Nil
  show ?case by simp
next
  case (Cons c cs)
  have d: "udist c" "cudist cs" "idset c \<inter> cidset cs = {}"
    using Cons.prems(1) by simp_all
  have c: "udist (g c)" "idset (g c) \<subseteq> idset c \<union> (if p \<in> idset c then N else {})"
    using Cons.prems(2)[of c] by simp_all
  have N: "N \<inter> idset c = {}" "N \<inter> cidset cs = {}" using Cons.prems(3) by auto
  have "cudist (map g cs) \<and>
    cidset (map g cs) \<subseteq> cidset cs \<union> (if p \<in> cidset cs then N else {})"
    by (rule Cons.IH[OF d(2) _ N(2)]) (simp add: Cons.prems(2))
  then have ih: "cudist (map g cs)"
    "cidset (map g cs) \<subseteq> cidset cs \<union> (if p \<in> cidset cs then N else {})"
    by simp_all
  have disj: "idset (g c) \<inter> cidset (map g cs) = {}"
  proof (rule ccontr)
    assume "idset (g c) \<inter> cidset (map g cs) \<noteq> {}"
    then obtain i where i: "i \<in> idset (g c)" "i \<in> cidset (map g cs)" by auto
    from i(1) c(2) have 1: "i \<in> idset c \<or> (p \<in> idset c \<and> i \<in> N)" by (auto split: if_splits)
    from i(2) ih(2) have 2: "i \<in> cidset cs \<or> (p \<in> cidset cs \<and> i \<in> N)" by (auto split: if_splits)
    from 1 2 d(3) N show False by auto
  qed
  have sub: "cidset (map g (c # cs)) \<subseteq> cidset (c # cs) \<union> (if p \<in> cidset (c # cs) then N else {})"
    using c(2) ih(2) by (auto split: if_splits)
  show ?case
    using c(1) ih(1) disj sub by simp
qed

lemma udist_modify:
  assumes "udist T"
    and f: "\<And>cs. cudist cs \<Longrightarrow> N \<inter> cidset cs = {} \<Longrightarrow>
              cudist (f cs) \<and> cidset (f cs) \<subseteq> cidset cs \<union> N"
    and "N \<inter> idset T = {}"
  shows "udist (modify_children p f T) \<and>
         idset (modify_children p f T) \<subseteq> idset T \<union> (if p \<in> idset T then N else {})"
  using assms(1,3)
proof (induction T)
  case (Text t)
  show ?case by simp
next
  case (Element e cs)
  have d: "eid e \<notin> cidset cs" "cudist cs"
    using Element.prems(1) by simp_all
  have N: "eid e \<notin> N" "N \<inter> cidset cs = {}" using Element.prems(2) by auto
  show ?case
  proof (cases "eid e = p")
    case True
    from f[OF d(2) N(2)] have "cudist (f cs)" "cidset (f cs) \<subseteq> cidset cs \<union> N"
      by simp_all
    with True d(1) N(1) show ?thesis by auto
  next
    case False
    have "cudist (map (modify_children p f) cs) \<and>
          cidset (map (modify_children p f) cs) \<subseteq> cidset cs \<union> (if p \<in> cidset cs then N else {})"
    proof (rule udist_cmap[OF d(2) _ N(2)])
      fix c assume c: "c \<in> set cs"
      have "udist c" using d(2) c by (rule cudist_member)
      moreover have "N \<inter> idset c = {}" using N(2) cidset_member[OF c] by auto
      ultimately show "udist (modify_children p f c) \<and>
          idset (modify_children p f c) \<subseteq> idset c \<union> (if p \<in> idset c then N else {})"
        using Element.IH[OF c] by simp
    qed
    with False d(1) N(1) show ?thesis by (auto split: if_splits)
  qed
qed

lemma cidset_insert_after_in:
  "cidset (insert_after_in i new cs) \<subseteq> cidset cs \<union> idset new"
  by (induction cs) auto

lemma cudist_insert_after_in:
  "cudist cs \<Longrightarrow> idset new \<inter> cidset cs = {} \<Longrightarrow> udist new \<Longrightarrow>
   cudist (insert_after_in i new cs)"
proof (induction cs)
  case Nil
  show ?case by simp
next
  case (Cons c cs)
  show ?case
  proof (cases "node_id c = Some i")
    case True
    with Cons.prems show ?thesis by auto
  next
    case False
    have "cidset (insert_after_in i new cs) \<subseteq> cidset cs \<union> idset new"
      by (rule cidset_insert_after_in)
    with False Cons show ?thesis by auto
  qed
qed

lemma udist_insert:
  assumes "udist T" "eid n \<notin> idset T"
  shows "udist (modify_children p (insert_after_in i (Element n [])) T)"
    and "idset (modify_children p (insert_after_in i (Element n [])) T) \<subseteq> insert (eid n) (idset T)"
proof -
  have "udist (modify_children p (insert_after_in i (Element n [])) T) \<and>
        idset (modify_children p (insert_after_in i (Element n [])) T)
          \<subseteq> idset T \<union> (if p \<in> idset T then {eid n} else {})"
  proof (rule udist_modify[OF assms(1)])
    fix cs assume "cudist cs" "{eid n} \<inter> cidset cs = {}"
    then show "cudist (insert_after_in i (Element n []) cs) \<and>
               cidset (insert_after_in i (Element n []) cs) \<subseteq> cidset cs \<union> {eid n}"
      using cudist_insert_after_in[of cs "Element n []" i]
        cidset_insert_after_in[of i "Element n []" cs]
      by auto
  next
    show "{eid n} \<inter> idset T = {}" using assms(2) by simp
  qed
  then show "udist (modify_children p (insert_after_in i (Element n [])) T)"
    and "idset (modify_children p (insert_after_in i (Element n [])) T) \<subseteq> insert (eid n) (idset T)"
    by (auto split: if_splits)
qed

lemma udist_prepend:
  assumes "udist T" "eid n \<notin> idset T"
  shows "udist (modify_children p (Cons (Element n [])) T)"
    and "idset (modify_children p (Cons (Element n [])) T) \<subseteq> insert (eid n) (idset T)"
proof -
  have "udist (modify_children p (Cons (Element n [])) T) \<and>
        idset (modify_children p (Cons (Element n [])) T)
          \<subseteq> idset T \<union> (if p \<in> idset T then {eid n} else {})"
  proof (rule udist_modify[OF assms(1)])
    fix cs assume "cudist cs" "{eid n} \<inter> cidset cs = {}"
    then show "cudist (Element n [] # cs) \<and> cidset (Element n [] # cs) \<subseteq> cidset cs \<union> {eid n}"
      by auto
  next
    show "{eid n} \<inter> idset T = {}" using assms(2) by simp
  qed
  then show "udist (modify_children p (Cons (Element n [])) T)"
    and "idset (modify_children p (Cons (Element n [])) T) \<subseteq> insert (eid n) (idset T)"
    by (auto split: if_splits)
qed

lemma cidset_filter: "cidset (filter Q cs) \<subseteq> cidset cs"
  by (induction cs) auto

lemma cudist_filter: "cudist cs \<Longrightarrow> cudist (filter Q cs)"
proof (induction cs)
  case Nil
  show ?case by simp
next
  case (Cons c cs)
  have "cidset (filter Q cs) \<subseteq> cidset cs" by (rule cidset_filter)
  with Cons show ?case by auto
qed

lemma udist_remove:
  assumes "udist T"
  shows "udist (modify_children p (filter Q) T)"
    and "idset (modify_children p (filter Q) T) \<subseteq> idset T"
proof -
  have "udist (modify_children p (filter Q) T) \<and>
        idset (modify_children p (filter Q) T) \<subseteq> idset T \<union> (if p \<in> idset T then {} else {})"
  proof (rule udist_modify[OF assms(1)])
    fix cs assume "cudist cs"
    then show "cudist (filter Q cs) \<and> cidset (filter Q cs) \<subseteq> cidset cs \<union> {}"
      using cudist_filter[of cs Q] cidset_filter[of Q cs] by auto
  qed simp
  then show "udist (modify_children p (filter Q) T)"
    and "idset (modify_children p (filter Q) T) \<subseteq> idset T"
    by auto
qed

text \<open>The entries after a change: an upper bound.\<close>

lemma entries_modify_set:
  assumes "\<And>cs a e. eid e = p \<Longrightarrow> set (centries (e # a) (f cs)) \<subseteq> set (centries (e # a) cs) \<union> X (e # a)"
  shows "set (entries anc (modify_children p f T))
       \<subseteq> set (entries anc T) \<union> (\<Union>x \<in> set (entries anc T). if eid (snd x) = p then X (snd x # fst x) else {})"
proof (induction T arbitrary: anc)
  case (Text t)
  show ?case by simp
next
  case (Element e cs)
  show ?case
  proof (cases "eid e = p")
    case True
    then show ?thesis using assms[of e anc cs] by auto
  next
    case False
    have "set (centries (e # anc) (map (modify_children p f) cs))
        \<subseteq> set (centries (e # anc) cs) \<union>
          (\<Union>x \<in> set (centries (e # anc) cs). if eid (snd x) = p then X (snd x # fst x) else {})"
    proof
      fix y assume "y \<in> set (centries (e # anc) (map (modify_children p f) cs))"
      then obtain c where c: "c \<in> set cs" "y \<in> set (entries (e # anc) (modify_children p f c))"
        by (auto simp: set_centries)
      from Element.IH[OF c(1), of "e # anc"] c(2)
      have "y \<in> set (entries (e # anc) c) \<union>
          (\<Union>x \<in> set (entries (e # anc) c). if eid (snd x) = p then X (snd x # fst x) else {})"
        by blast
      with c(1) show "y \<in> set (centries (e # anc) cs) \<union>
          (\<Union>x \<in> set (centries (e # anc) cs). if eid (snd x) = p then X (snd x # fst x) else {})"
        by (auto simp: set_centries)
    qed
    with False show ?thesis by auto
  qed
qed

lemma set_centries_insert_after_in:
  "set (centries a (insert_after_in i new cs)) \<subseteq> set (centries a cs) \<union> set (entries a new)"
  by (induction cs) auto

lemma entries_insert_set:
  "set (entries anc (modify_children p (insert_after_in i (Element n [])) T))
   \<subseteq> set (entries anc T) \<union> {(snd x # fst x, n) | x. x \<in> set (entries anc T) \<and> eid (snd x) = p}"
proof -
  have "set (entries anc (modify_children p (insert_after_in i (Element n [])) T))
       \<subseteq> set (entries anc T) \<union> (\<Union>x \<in> set (entries anc T). if eid (snd x) = p then {(snd x # fst x, n)} else {})"
    by (rule entries_modify_set[where X="\<lambda>c. {(c, n)}"])
       (use set_centries_insert_after_in in fastforce)
  then show ?thesis by (auto split: if_splits)
qed

lemma entries_prepend_set:
  "set (entries anc (modify_children p (Cons (Element n [])) T))
   \<subseteq> set (entries anc T) \<union> {(snd x # fst x, n) | x. x \<in> set (entries anc T) \<and> eid (snd x) = p}"
proof -
  have "set (entries anc (modify_children p (Cons (Element n [])) T))
       \<subseteq> set (entries anc T) \<union> (\<Union>x \<in> set (entries anc T). if eid (snd x) = p then {(snd x # fst x, n)} else {})"
    by (rule entries_modify_set[where X="\<lambda>c. {(c, n)}"]) auto
  then show ?thesis by (auto split: if_splits)
qed

lemma set_centries_filter: "set (centries a (filter Q cs)) \<subseteq> set (centries a cs)"
  by (induction cs) auto

lemma entries_remove_set:
  "set (entries anc (modify_children p (filter Q) T)) \<subseteq> set (entries anc T)"
proof -
  have "set (entries anc (modify_children p (filter Q) T))
       \<subseteq> set (entries anc T) \<union> (\<Union>x \<in> set (entries anc T). if eid (snd x) = p then {} else {})"
    by (rule entries_modify_set[where X="\<lambda>c. {}"]) (use set_centries_filter in fastforce)
  then show ?thesis by auto
qed

text \<open>Element lists of the changed child lists.\<close>

lemma elts_of_insert_after_in:
  "elts_of (insert_after_in i (Element n []) cs) = insert_elt_after i n (elts_of cs)"
  by (induction cs rule: elts_of.induct) auto

lemma elts_of_filter:
  "elts_of (filter (\<lambda>c. node_id c \<noteq> Some r) cs) = filter (\<lambda>e. eid e \<noteq> r) (elts_of cs)"
  by (induction cs rule: elts_of.induct) auto

lemma children_insert:
  assumes "udist T" "p \<in> idset T" "eid n \<noteq> p"
  shows "map snd (filter (child_of p) (entries [] (modify_children p (insert_after_in i (Element n [])) T)))
       = insert_elt_after i n (map snd (filter (child_of p) (entries [] T)))"
proof (rule children_modify[OF assms(1)])
  fix cs assume "p \<notin> cidset cs"
  then show "p \<notin> cidset (insert_after_in i (Element n []) cs)"
    using cidset_insert_after_in[of i "Element n []" cs] assms(3) by auto
qed (simp_all add: elts_of_insert_after_in assms)

lemma children_prepend:
  assumes "udist T" "p \<in> idset T" "eid n \<noteq> p"
  shows "map snd (filter (child_of p) (entries [] (modify_children p (Cons (Element n [])) T)))
       = n # map snd (filter (child_of p) (entries [] T))"
proof (rule children_modify[OF assms(1), where fh="Cons n"])
  fix cs assume "p \<notin> cidset cs"
  then show "p \<notin> cidset (Element n [] # cs)" using assms(3) by auto
qed (simp_all add: assms)

lemma children_remove:
  assumes "udist T" "p \<in> idset T"
  shows "map snd (filter (child_of p) (entries [] (modify_children p (filter (\<lambda>c. node_id c \<noteq> Some r)) T)))
       = filter (\<lambda>e. eid e \<noteq> r) (map snd (filter (child_of p) (entries [] T)))"
proof (rule children_modify[OF assms(1)])
  fix cs assume "p \<notin> cidset cs"
  then show "p \<notin> cidset (filter (\<lambda>c. node_id c \<noteq> Some r) cs)"
    using cidset_filter[of "\<lambda>c. node_id c \<noteq> Some r" cs] by auto
qed (simp_all add: elts_of_filter assms)

lemma similar_refl [simp]: "similar d d"
  by (simp add: similar_def)

lemma similar_trans: "similar d d' \<Longrightarrow> similar d' d'' \<Longrightarrow> similar d d''"
  by (simp add: similar_def)

lemma unique_entry:
  assumes "udist T" "x \<in> set (entries anc T)" "y \<in> set (entries anc T)" "eid (snd x) = eid (snd y)"
  shows "x = y"
proof -
  have "distinct (map (eid \<circ> snd) (entries anc T))"
    using assms(1) map_snd_entries[of anc T] by (simp add: udist_def flip: map_map)
  then have "inj_on (eid \<circ> snd) (set (entries anc T))" by (simp add: distinct_map)
  with assms(2-4) show ?thesis by (simp add: inj_on_def)
qed

lemma entry_of_eq:
  assumes "udist (root d)" "(a, e) \<in> set (doc_entries d)"
  shows "entry_of d (eid e) = Some (a, e)"
proof -
  obtain y where y: "find (\<lambda>x. eid (snd x) = eid e) (doc_entries d) = Some y"
    using assms(2) by (cases "find (\<lambda>x. eid (snd x) = eid e) (doc_entries d)") (auto simp: find_None_iff)
  then have "y \<in> set (doc_entries d)" "eid (snd y) = eid e"
    by (auto simp: find_Some_iff)
  with unique_entry[OF assms(1), of y "[]" "(a, e)"] assms(2) have "y = (a, e)"
    by (simp add: doc_entries_def)
  with y show ?thesis by (simp add: entry_of_def)
qed

lemma entry_of_in: "entry_of d i = Some x \<Longrightarrow> x \<in> set (doc_entries d) \<and> eid (snd x) = i"
  by (auto simp: entry_of_def find_Some_iff)

lemma in_entries_idset: "x \<in> set (entries anc T) \<Longrightarrow> eid (snd x) \<in> idset T"
  using snd_in_elems[of x anc T] by (simp add: idset_def)

lemma idset_entries: "i \<in> idset T \<Longrightarrow> \<exists>x \<in> set (entries anc T). eid (snd x) = i"
proof -
  assume "i \<in> idset T"
  then obtain e where "e \<in> set (elems T)" "eid e = i" by (auto simp: idset_def)
  then have "e \<in> set (map snd (entries anc T))" by (simp only: map_snd_entries)
  with \<open>eid e = i\<close> show ?thesis by auto
qed

lemma childless_from_chains:
  "(\<forall>x \<in> set (entries anc T). r \<notin> eid ` set (fst x)) \<Longrightarrow>
   (\<forall>x \<in> set (texts anc T). r \<notin> eid ` set (fst x)) \<Longrightarrow> childless r T"
proof (induction T arbitrary: anc)
  case (Text t)
  show ?case by simp
next
  case (Element e cs)
  have leaf: "cs = []" if "eid e = r"
  proof (cases cs)
    case Nil
    then show ?thesis .
  next
    case (Cons c cs')
    show ?thesis
    proof (cases c)
      case (Element x xs)
      with Cons have "(e # anc, x) \<in> set (entries anc (node.Element e cs))" by simp
      with Element.prems(1) that show ?thesis by force
    next
      case (Text t)
      with Cons have "(e # anc, t) \<in> set (texts anc (node.Element e cs))" by simp
      with Element.prems(2) that show ?thesis by force
    qed
  qed
  have "childless r c" if c: "c \<in> set cs" for c
  proof (rule Element.IH[OF c, of "e # anc"])
    show "\<forall>x \<in> set (entries (e # anc) c). r \<notin> eid ` set (fst x)"
      using Element.prems(1) c by (auto simp: set_centries)
    show "\<forall>x \<in> set (texts (e # anc) c). r \<notin> eid ` set (fst x)"
      using Element.prems(2) c by auto
  qed
  with leaf show ?case by (auto simp: list_all_iff)
qed

lemma chain_elt_entry:
  assumes "(a, x) \<in> set (entries [] T)" "q \<in> set a"
  shows "\<exists>ys. (ys, q) \<in> set (entries [] T)"
proof -
  from assms(2) obtain pre ys where "a = pre @ q # ys" by (meson split_list)
  with assms(1) chain_suffix[of pre q ys x T] show ?thesis by auto
qed

lemma texts_chain:
  "x \<in> set (texts anc T) \<Longrightarrow> fst x = anc \<or> (\<exists>y ys. fst x = y # ys \<and> (ys, y) \<in> set (entries anc T))"
proof (induction T arbitrary: anc)
  case (Text t)
  then show ?case by simp
next
  case (Element e cs)
  then obtain c where c: "c \<in> set cs" "x \<in> set (texts (e # anc) c)" by auto
  from Element.IH[OF c] have "fst x = e # anc \<or> (\<exists>y ys. fst x = y # ys \<and> (ys, y) \<in> set (entries (e # anc) c))" .
  with c(1) show ?case by (auto simp: set_centries)
qed

lemma text_chain_elt_entry:
  assumes "(a, t) \<in> set (texts [] T)" "q \<in> set a"
  shows "\<exists>ys. (ys, q) \<in> set (entries [] T)"
proof -
  from texts_chain[OF assms(1)] assms(2) obtain y ys where y: "a = y # ys" "(ys, y) \<in> set (entries [] T)"
    by auto
  show ?thesis
  proof (cases "q = y")
    case True
    with y show ?thesis by auto
  next
    case False
    with assms(2) y(1) have "q \<in> set ys" by simp
    with chain_elt_entry[OF y(2)] show ?thesis by simp
  qed
qed

lemma marked_childless:
  assumes "ids_ok d" "marked_ok d" "(a, e) \<in> set (doc_entries d)" "is_replacement e"
  shows "childless (eid e) (root d)"
proof (rule childless_from_chains[of "[]"])
  have no: "eid q \<noteq> eid e" if "(ys, q) \<in> set (doc_entries d)" "\<not> is_replacement q" for ys q
  proof
    assume "eid q = eid e"
    with unique_entry[of "root d" "(ys, q)" "[]" "(a, e)"] that(1) assms(1,3)
    have "q = e" by (simp add: ids_ok_def doc_entries_def)
    with that(2) assms(4) show False by simp
  qed
  show "\<forall>x \<in> set (entries [] (root d)). eid e \<notin> eid ` set (fst x)"
  proof (intro ballI notI)
    fix x assume x: "x \<in> set (entries [] (root d))" "eid e \<in> eid ` set (fst x)"
    then obtain q where q: "q \<in> set (fst x)" "eid q = eid e" by auto
    from x(1) q(1) assms(2) have nr: "\<not> is_replacement q"
      by (auto simp: marked_ok_def doc_entries_def)
    from chain_elt_entry[of "fst x" "snd x" "root d" q] x(1) q(1)
    obtain ys where "(ys, q) \<in> set (doc_entries d)" by (auto simp: doc_entries_def)
    from no[OF this nr] q(2) show False by simp
  qed
  show "\<forall>x \<in> set (texts [] (root d)). eid e \<notin> eid ` set (fst x)"
  proof (intro ballI notI)
    fix x assume x: "x \<in> set (texts [] (root d))" "eid e \<in> eid ` set (fst x)"
    then obtain q where q: "q \<in> set (fst x)" "eid q = eid e" by auto
    from x(1) q(1) assms(2) have nr: "\<not> is_replacement q"
      by (auto simp: marked_ok_def)
    from text_chain_elt_entry[of "fst x" "snd x" "root d" q] x(1) q(1)
    obtain ys where "(ys, q) \<in> set (doc_entries d)" by (auto simp: doc_entries_def)
    from no[OF this nr] q(2) show False by simp
  qed
qed

lemma parent_entry:
  "(p # a, x) \<in> set (doc_entries d) \<Longrightarrow> (a, p) \<in> set (doc_entries d)"
  using chain_suffix[of "[]" p a x "root d"] by (simp add: doc_entries_def)

lemma parentNode_eq:
  assumes "udist (root d)" "(p # a, x) \<in> set (doc_entries d)"
  shows "parentNode d (eid x) = Some p"
  using entry_of_eq[OF assms] by (simp add: parentNode_def)

lemma elementChildren_mem:
  "(p # a, x) \<in> set (doc_entries d) \<Longrightarrow> x \<in> set (elementChildren d (eid p))"
  by (force simp: elementChildren_def)

lemma elementChildren_entry:
  assumes "udist (root d)" "x \<in> set (elementChildren d p)"
  shows "\<exists>q a. (q # a, x) \<in> set (doc_entries d) \<and> eid q = p"
proof -
  from assms(2) obtain y where y: "y \<in> set (doc_entries d)" "child_of p y" "snd y = x"
    by (auto simp: elementChildren_def)
  obtain c b where yb: "y = (c, b)" by (cases y)
  with y(2) obtain q a where "c = q # a" "eid q = p" by (cases c) auto
  with y yb show ?thesis by auto
qed

section \<open>Insertion after an element\<close>

lemma insert_elt_after_mem: "s \<in> set es \<Longrightarrow> n \<in> set (insert_elt_after (eid s) n es)"
  by (induction es) auto

lemma set_insert_elt_after: "set (insert_elt_after i n es) \<subseteq> insert n (set es)"
  by (induction es) auto

lemma insert_entries:
  assumes ok: "udist (root d)" and new: "eid n \<notin> idset (root d)"
    and par: "(p # a, s) \<in> set (doc_entries d)"
  defines "d' \<equiv> insertBeforeNext d (eid p) (eid s) (Element n [])"
  shows "elementChildren d' (eid p) = insert_elt_after (eid s) n (elementChildren d (eid p))"
    and "\<And>q. q \<noteq> eid p \<Longrightarrow> elementChildren d' q = elementChildren d q"
    and "set (doc_entries d') = insert (p # a, n) (set (doc_entries d))"
    and "udist (root d')" and "idset (root d') \<subseteq> insert (eid n) (idset (root d))"
proof -
  let ?g = "modify_children (eid p) (insert_after_in (eid s) (Element n []))"
  have root': "root d' = ?g (root d)" by (simp add: d'_def insertBeforeNext_def)
  have pent: "(a, p) \<in> set (doc_entries d)" using par by (rule parent_entry)
  then have pin: "eid p \<in> idset (root d)"
    using in_entries_idset[of "(a, p)" "[]" "root d"] by (simp add: doc_entries_def)
  with new have np: "eid n \<noteq> eid p" by auto
  show ch: "elementChildren d' (eid p) = insert_elt_after (eid s) n (elementChildren d (eid p))"
    using children_insert[OF ok pin np, of "eid s"]
    by (simp add: elementChildren_def doc_entries_def root')
  show oth: "\<And>q. q \<noteq> eid p \<Longrightarrow> elementChildren d' q = elementChildren d q"
    using children_other_insert[of _ "eid p" "[]" "eid s" n "root d"]
    by (simp add: elementChildren_def doc_entries_def root')
  show ud: "udist (root d')" and ids: "idset (root d') \<subseteq> insert (eid n) (idset (root d))"
    using udist_insert[OF ok new, of "eid p" "eid s"] by (simp_all add: root')
  have old: "set (doc_entries d) \<subseteq> set (doc_entries d')"
  proof
    fix x assume x: "x \<in> set (doc_entries d)"
    have "filter (\<lambda>x. eid (snd x) \<noteq> eid n) (doc_entries d')
        = filter (\<lambda>x. eid (snd x) \<noteq> eid n) (doc_entries d)"
      unfolding doc_entries_def root' by (rule entries_insert_filter) simp
    moreover have "eid (snd x) \<noteq> eid n"
      using x new in_entries_idset[of x "[]" "root d"] by (auto simp: doc_entries_def)
    ultimately have "x \<in> set (filter (\<lambda>x. eid (snd x) \<noteq> eid n) (doc_entries d'))"
      using x by simp
    then show "x \<in> set (doc_entries d')" by simp
  qed
  have upper: "set (doc_entries d') \<subseteq> insert (p # a, n) (set (doc_entries d))"
  proof
    fix y assume "y \<in> set (doc_entries d')"
    then have "y \<in> set (entries [] (root d)) \<union>
        {(snd x # fst x, n) | x. x \<in> set (entries [] (root d)) \<and> eid (snd x) = eid p}"
      using entries_insert_set[of "[]" "eid p" "eid s" n "root d"]
      by (auto simp only: doc_entries_def root')
    then have "y \<in> set (doc_entries d) \<or> (\<exists>x \<in> set (doc_entries d). eid (snd x) = eid p \<and> y = (snd x # fst x, n))"
      unfolding doc_entries_def by blast
    then show "y \<in> insert (p # a, n) (set (doc_entries d))"
    proof
      assume "\<exists>x \<in> set (doc_entries d). eid (snd x) = eid p \<and> y = (snd x # fst x, n)"
      then obtain x where x: "x \<in> set (doc_entries d)" "eid (snd x) = eid p" "y = (snd x # fst x, n)"
        by auto
      with unique_entry[OF ok, of x "[]" "(a, p)"] pent have "x = (a, p)"
        by (simp add: doc_entries_def)
      with x(3) show ?thesis by simp
    qed simp
  qed
  have "s \<in> set (elementChildren d (eid p))" using par by (rule elementChildren_mem)
  then have "n \<in> set (insert_elt_after (eid s) n (elementChildren d (eid p)))"
    by (rule insert_elt_after_mem)
  then have "n \<in> set (elementChildren d' (eid p))" using ch by simp
  then obtain y where y: "y \<in> set (doc_entries d')" "snd y = n"
    by (auto simp: elementChildren_def)
  have "y \<notin> set (doc_entries d)"
    using y(2) new in_entries_idset[of y "[]" "root d"] by (auto simp: doc_entries_def)
  with upper y(1) have "y = (p # a, n)" by auto
  with y(1) old upper show "set (doc_entries d') = insert (p # a, n) (set (doc_entries d))"
    by auto
qed

section \<open>Insertion as first child\<close>

lemma prepend_entries:
  assumes ok: "udist (root d)" and new: "eid n \<notin> idset (root d)"
    and ent: "(a, p) \<in> set (doc_entries d)"
  defines "d' \<equiv> insertFirst d (eid p) (Element n [])"
  shows "elementChildren d' (eid p) = n # elementChildren d (eid p)"
    and "\<And>q. q \<noteq> eid p \<Longrightarrow> elementChildren d' q = elementChildren d q"
    and "set (doc_entries d') = insert (p # a, n) (set (doc_entries d))"
    and "udist (root d')" and "idset (root d') \<subseteq> insert (eid n) (idset (root d))"
proof -
  let ?g = "modify_children (eid p) (Cons (Element n []))"
  have root': "root d' = ?g (root d)" by (simp add: d'_def insertFirst_def)
  have pin: "eid p \<in> idset (root d)"
    using ent in_entries_idset[of "(a, p)" "[]" "root d"] by (simp add: doc_entries_def)
  with new have np: "eid n \<noteq> eid p" by auto
  show ch: "elementChildren d' (eid p) = n # elementChildren d (eid p)"
    using children_prepend[OF ok pin np]
    by (simp add: elementChildren_def doc_entries_def root')
  show oth: "\<And>q. q \<noteq> eid p \<Longrightarrow> elementChildren d' q = elementChildren d q"
    using children_other_prepend[of _ "eid p" "[]" n "root d"]
    by (simp add: elementChildren_def doc_entries_def root')
  show ud: "udist (root d')" and ids: "idset (root d') \<subseteq> insert (eid n) (idset (root d))"
    using udist_prepend[OF ok new, of "eid p"] by (simp_all add: root')
  have old: "set (doc_entries d) \<subseteq> set (doc_entries d')"
  proof
    fix x assume x: "x \<in> set (doc_entries d)"
    have "filter (\<lambda>x. eid (snd x) \<noteq> eid n) (doc_entries d')
        = filter (\<lambda>x. eid (snd x) \<noteq> eid n) (doc_entries d)"
      unfolding doc_entries_def root' by (rule entries_prepend_filter) simp
    moreover have "eid (snd x) \<noteq> eid n"
      using x new in_entries_idset[of x "[]" "root d"] by (auto simp: doc_entries_def)
    ultimately have "x \<in> set (filter (\<lambda>x. eid (snd x) \<noteq> eid n) (doc_entries d'))"
      using x by simp
    then show "x \<in> set (doc_entries d')" by simp
  qed
  have upper: "set (doc_entries d') \<subseteq> insert (p # a, n) (set (doc_entries d))"
  proof
    fix y assume "y \<in> set (doc_entries d')"
    then have "y \<in> set (entries [] (root d)) \<union>
        {(snd x # fst x, n) | x. x \<in> set (entries [] (root d)) \<and> eid (snd x) = eid p}"
      using entries_prepend_set[of "[]" "eid p" n "root d"]
      by (auto simp only: doc_entries_def root')
    then have "y \<in> set (doc_entries d) \<or> (\<exists>x \<in> set (doc_entries d). eid (snd x) = eid p \<and> y = (snd x # fst x, n))"
      unfolding doc_entries_def by blast
    then show "y \<in> insert (p # a, n) (set (doc_entries d))"
    proof
      assume "\<exists>x \<in> set (doc_entries d). eid (snd x) = eid p \<and> y = (snd x # fst x, n)"
      then obtain x where x: "x \<in> set (doc_entries d)" "eid (snd x) = eid p" "y = (snd x # fst x, n)"
        by auto
      with unique_entry[OF ok, of x "[]" "(a, p)"] ent have "x = (a, p)"
        by (simp add: doc_entries_def)
      with x(3) show ?thesis by simp
    qed simp
  qed
  have "n \<in> set (elementChildren d' (eid p))" using ch by simp
  then obtain y where y: "y \<in> set (doc_entries d')" "snd y = n"
    by (auto simp: elementChildren_def)
  have "y \<notin> set (doc_entries d)"
    using y(2) new in_entries_idset[of y "[]" "root d"] by (auto simp: doc_entries_def)
  with upper y(1) have "y = (p # a, n)" by auto
  with y(1) old upper show "set (doc_entries d') = insert (p # a, n) (set (doc_entries d))"
    by auto
qed

section \<open>Removal of a childless element\<close>

lemma remove_entries:
  assumes ok: "udist (root d)" and leaf: "childless (eid r) (root d)"
    and ent: "(p # a, r) \<in> set (doc_entries d)"
  defines "d' \<equiv> remove d (eid r)"
  shows "\<And>q. elementChildren d' q = filter (\<lambda>e. eid e \<noteq> eid r) (elementChildren d q)"
    and "set (doc_entries d') = set (doc_entries d) - {(p # a, r)}"
    and "udist (root d')" and "idset (root d') \<subseteq> idset (root d)"
    and "\<And>P. (\<And>x. eid (snd x) = eid r \<Longrightarrow> \<not> P x) \<Longrightarrow>
           filter P (doc_entries d') = filter P (doc_entries d)"
    and "texts [] (root d') = texts [] (root d)"
    and "styles d' = styles d" and "fresh d' = fresh d"
proof -
  let ?f = "filter (\<lambda>n. node_id n \<noteq> Some (eid r))"
  let ?g = "modify_children (eid p) ?f"
  have par: "parentNode d (eid r) = Some p" using ok ent by (rule parentNode_eq)
  then have d': "d' = d\<lparr>root := ?g (root d)\<rparr>" by (simp add: d'_def remove_def)
  then have root': "root d' = ?g (root d)" by simp
  show "styles d' = styles d" "fresh d' = fresh d" by (simp_all add: d')
  have pent: "(a, p) \<in> set (doc_entries d)" using ent by (rule parent_entry)
  then have pin: "eid p \<in> idset (root d)"
    using in_entries_idset[of "(a, p)" "[]" "root d"] by (simp add: doc_entries_def)
  show filt: "filter P (doc_entries d') = filter P (doc_entries d)"
    if "\<And>x. eid (snd x) = eid r \<Longrightarrow> \<not> P x" for P
    unfolding doc_entries_def root' using leaf that by (rule entries_remove_filter)
  show "texts [] (root d') = texts [] (root d)"
    unfolding root' using leaf by (rule texts_remove)
  show ud: "udist (root d')" and ids: "idset (root d') \<subseteq> idset (root d)"
    using udist_remove[OF ok, of "eid p"] by (simp_all add: root')
  have chp: "elementChildren d' (eid p) = filter (\<lambda>e. eid e \<noteq> eid r) (elementChildren d (eid p))"
    using children_remove[OF ok pin, of "eid r"]
    by (simp add: elementChildren_def doc_entries_def root')
  have sub: "set (doc_entries d') \<subseteq> set (doc_entries d)"
    unfolding doc_entries_def root' by (rule entries_remove_set)
  have gone: "(p # a, r) \<notin> set (doc_entries d')"
  proof
    assume "(p # a, r) \<in> set (doc_entries d')"
    then have "r \<in> set (elementChildren d' (eid p))" by (rule elementChildren_mem)
    with chp show False by simp
  qed
  have only: "x = (p # a, r)" if "x \<in> set (doc_entries d)" "eid (snd x) = eid r" for x
    using unique_entry[OF ok, of x "[]" "(p # a, r)"] that ent by (simp add: doc_entries_def)
  show setc: "set (doc_entries d') = set (doc_entries d) - {(p # a, r)}"
  proof (intro equalityI subsetI)
    fix x assume "x \<in> set (doc_entries d')"
    with sub gone show "x \<in> set (doc_entries d) - {(p # a, r)}" by auto
  next
    fix x assume x: "x \<in> set (doc_entries d) - {(p # a, r)}"
    with only[of x] have "eid (snd x) \<noteq> eid r" by blast
    with x have "x \<in> set (filter (\<lambda>x. eid (snd x) \<noteq> eid r) (doc_entries d))" by simp
    then have "x \<in> set (filter (\<lambda>x. eid (snd x) \<noteq> eid r) (doc_entries d'))"
      using filt[of "\<lambda>x. eid (snd x) \<noteq> eid r"] by simp
    then show "x \<in> set (doc_entries d')" by simp
  qed
  show "elementChildren d' q = filter (\<lambda>e. eid e \<noteq> eid r) (elementChildren d q)" for q
  proof -
    have nor: "eid (snd x) \<noteq> eid r" if "x \<in> set (doc_entries d')" for x
      using that setc only[of x] by blast
    have "filter (child_of q) (doc_entries d')
        = filter (\<lambda>x. child_of q x \<and> eid (snd x) \<noteq> eid r) (doc_entries d')"
      using nor by (intro filter_cong) auto
    also have "\<dots> = filter (\<lambda>x. child_of q x \<and> eid (snd x) \<noteq> eid r) (doc_entries d)"
      by (rule filt) simp
    finally show ?thesis
      by (simp add: elementChildren_def filter_map comp_def conj_commute)
  qed
qed

lemma filter_nonrepl:
  assumes "marked_ok d" "\<And>x. P x \<Longrightarrow> \<not> repl_elt (snd x)"
  shows "filter P (doc_entries d) = filter P (filter (\<lambda>x. \<not> is_replacement (snd x)) (doc_entries d))"
proof -
  have "\<not> is_replacement (snd x)" if "x \<in> set (doc_entries d)" "P x" for x
  proof
    assume r: "is_replacement (snd x)"
    from assms(1) that(1) have "is_replacement (snd x) \<longrightarrow> repl_elt (snd x)"
      unfolding marked_ok_def by blast
    with r assms(2)[OF that(2)] show False by simp
  qed
  then have "filter P (doc_entries d) = filter (\<lambda>x. \<not> is_replacement (snd x) \<and> P x) (doc_entries d)"
    by (intro filter_cong) auto
  then show ?thesis by (simp add: conj_commute)
qed

lemma filter_similar:
  assumes "similar d d'" "marked_ok d" "marked_ok d'" "\<And>x. P x \<Longrightarrow> \<not> repl_elt (snd x)"
  shows "filter P (doc_entries d') = filter P (doc_entries d)"
proof -
  have "filter P (doc_entries d') = filter P (filter (\<lambda>x. \<not> is_replacement (snd x)) (doc_entries d'))"
    by (rule filter_nonrepl[OF assms(3,4)])
  also have "\<dots> = filter P (filter (\<lambda>x. \<not> is_replacement (snd x)) (doc_entries d))"
    using assms(1) unfolding similar_def by (elim conjE) (erule arg_cong)
  also have "\<dots> = filter P (doc_entries d)"
    by (rule filter_nonrepl[OF assms(2,4), symmetric])
  finally show ?thesis .
qed

lemma querySelectorAll_similar:
  assumes "similar d d'" "marked_ok d" "marked_ok d'" "rejects_repl sel"
  shows "querySelectorAll d' X sel = querySelectorAll d X sel"
  unfolding querySelectorAll_def
  using assms(4) by (subst filter_similar[OF assms(1-3)]) (auto simp: rejects_repl_def)

lemma querySelector_similar:
  assumes "similar d d'" "marked_ok d" "marked_ok d'" "rejects_repl sel"
  shows "querySelector d' X sel = querySelector d X sel"
  by (simp add: querySelector_def querySelectorAll_similar[OF assms])

lemma document_querySelectorAll_similar:
  assumes "similar d d'" "marked_ok d" "marked_ok d'" "rejects_repl sel"
  shows "document_querySelectorAll d' sel = document_querySelectorAll d sel"
  unfolding document_querySelectorAll_def
  using assms(4) by (subst filter_similar[OF assms(1-3)]) (auto simp: rejects_repl_def)

lemma textContent_similar: "similar d d' \<Longrightarrow> textContent d' i = textContent d i"
  by (simp add: textContent_def similar_def)

lemma entry_similar:
  assumes "similar d d'" "(a, e) \<in> set (doc_entries d)" "\<not> is_replacement e"
  shows "(a, e) \<in> set (doc_entries d')"
proof -
  from assms(2,3) have "(a, e) \<in> set (filter (\<lambda>x. \<not> is_replacement (snd x)) (doc_entries d))"
    by simp
  with assms(1) have "(a, e) \<in> set (filter (\<lambda>x. \<not> is_replacement (snd x)) (doc_entries d'))"
    by (simp add: similar_def)
  then show ?thesis by simp
qed

lemma similar_sym: "similar d d' \<Longrightarrow> similar d' d"
  by (simp add: similar_def)

lemma entry_of_similar:
  assumes "similar d d'" "udist (root d)" "udist (root d')"
    "(a, e) \<in> set (doc_entries d)" "\<not> is_replacement e"
  shows "entry_of d' (eid e) = entry_of d (eid e)"
  using entry_of_eq[OF assms(2,4)] entry_of_eq[OF assms(3) entry_similar[OF assms(1,4,5)]]
  by simp

lemma closest_similar:
  assumes "similar d d'" "udist (root d)" "udist (root d')"
    "(a, e) \<in> set (doc_entries d)" "\<not> is_replacement e"
  shows "closest d' (eid e) sel = closest d (eid e) sel"
  by (simp add: closest_def entry_of_similar[OF assms])

lemma parentNode_similar:
  assumes "similar d d'" "udist (root d)" "udist (root d')"
    "(a, e) \<in> set (doc_entries d)" "\<not> is_replacement e"
  shows "parentNode d' (eid e) = parentNode d (eid e)"
  by (simp add: parentNode_def entry_of_similar[OF assms])

text \<open>What a successful query tells.\<close>

lemma querySelectorAll_mem:
  "e \<in> set (querySelectorAll d X sel) \<Longrightarrow>
   \<exists>a. (a, e) \<in> set (doc_entries d) \<and> X \<in> eid ` set a \<and> matches sel a e"
  by (force simp: querySelectorAll_def)

lemma querySelector_Some:
  "querySelector d X sel = Some e \<Longrightarrow>
   \<exists>a. (a, e) \<in> set (doc_entries d) \<and> X \<in> eid ` set a \<and> matches sel a e"
proof -
  assume "querySelector d X sel = Some e"
  then have "e \<in> set (querySelectorAll d X sel)"
    by (cases "querySelectorAll d X sel") (auto simp: querySelector_def)
  then show ?thesis by (rule querySelectorAll_mem)
qed

lemma querySelector_None:
  "querySelector d X sel = None \<longleftrightarrow>
   (\<forall>x \<in> set (doc_entries d). X \<in> eid ` set (fst x) \<longrightarrow> \<not> matches sel (fst x) (snd x))"
proof -
  have "querySelector d X sel = None \<longleftrightarrow> querySelectorAll d X sel = []"
    by (cases "querySelectorAll d X sel") (auto simp: querySelector_def)
  then show ?thesis by (auto simp: querySelectorAll_def filter_empty_conv)
qed

lemma closest_in_Some:
  "closest_in sel a e = Some c \<Longrightarrow>
   (c = e \<and> matches sel a e) \<or> (\<exists>pre ys. a = pre @ c # ys \<and> matches sel ys c)"
proof (induction a arbitrary: e)
  case Nil
  then show ?case by (cases "matches sel [] e") auto
next
  case (Cons p ps)
  show ?case
  proof (cases "matches sel (p # ps) e")
    case True
    with Cons.prems show ?thesis by simp
  next
    case False
    with Cons.prems have "closest_in sel ps p = Some c" by simp
    from Cons.IH[OF this] show ?thesis
    proof
      assume "c = p \<and> matches sel ps p"
      then have "p # ps = [] @ c # ps \<and> matches sel ps c" by simp
      then show ?thesis by blast
    next
      assume "\<exists>pre ys. ps = pre @ c # ys \<and> matches sel ys c"
      then obtain pre ys where "ps = pre @ c # ys" "matches sel ys c" by auto
      then have "p # ps = (p # pre) @ c # ys \<and> matches sel ys c" by simp
      then show ?thesis by blast
    qed
  qed
qed

lemmas sel_defs =
  sel_up_tree_def sel_svg_octicon_def sel_large_screen_cell_def sel_td_def sel_name_link_def
  sel_filename_column_def sel_file_svg_def sel_edit_link_def sel_replacement_img_def
  sel_file_svg_not_pencil_def sel_tree_text_span_def sel_tree_visual_def sel_div_row_def
  sel_table_rows_def sel_tree_item_def sel_row_def sel_tr_row_def sel_folder_row_def sel_any_row_def

lemma rejects_repl_sels [simp]:
  "rejects_repl sel_up_tree" "rejects_repl sel_svg_octicon" "rejects_repl sel_large_screen_cell"
  "rejects_repl sel_td" "rejects_repl sel_name_link" "rejects_repl sel_filename_column"
  "rejects_repl sel_file_svg" "rejects_repl sel_edit_link" "rejects_repl sel_file_svg_not_pencil"
  "rejects_repl sel_tree_text_span" "rejects_repl sel_tree_visual" "rejects_repl sel_div_row"
  "rejects_repl sel_table_rows" "rejects_repl sel_tree_item"
  by (simp_all add: rejects_repl_def repl_elt_def matches_def sel_defs replacement_class_def)

section \<open>Reads depend on the tree only\<close>

lemma root_cong:
  assumes "root d' = root d"
  shows "doc_entries d' = doc_entries d"
    and "entry_of d' = entry_of d"
    and "document_querySelectorAll d' = document_querySelectorAll d"
    and "querySelectorAll d' = querySelectorAll d"
    and "querySelector d' = querySelector d"
    and "closest d' = closest d"
    and "parentNode d' = parentNode d"
    and "textContent d' = textContent d"
    and "elementChildren d' = elementChildren d"
    and "followingElementSiblings d' = followingElementSiblings d"
    and "nextElementSibling d' = nextElementSibling d"
    and "next_is_replacement d' = next_is_replacement d"
proof -
  show e: "doc_entries d' = doc_entries d" by (simp add: doc_entries_def assms)
  show eo: "entry_of d' = entry_of d" by (simp add: entry_of_def e fun_eq_iff)
  show "document_querySelectorAll d' = document_querySelectorAll d"
    by (simp add: document_querySelectorAll_def e fun_eq_iff)
  show qa: "querySelectorAll d' = querySelectorAll d"
    by (simp add: querySelectorAll_def e fun_eq_iff)
  show "querySelector d' = querySelector d" by (simp add: querySelector_def qa fun_eq_iff)
  show "closest d' = closest d" by (simp add: closest_def eo fun_eq_iff)
  show pn: "parentNode d' = parentNode d" by (simp add: parentNode_def eo fun_eq_iff)
  show "textContent d' = textContent d" by (simp add: textContent_def assms fun_eq_iff)
  show ec: "elementChildren d' = elementChildren d" by (simp add: elementChildren_def e fun_eq_iff)
  show fs: "followingElementSiblings d' = followingElementSiblings d"
    by (simp add: followingElementSiblings_def pn ec fun_eq_iff cong: option.case_cong)
  show ns: "nextElementSibling d' = nextElementSibling d"
    by (simp add: nextElementSibling_def fs fun_eq_iff)
  show "next_is_replacement d' = next_is_replacement d"
    by (simp add: next_is_replacement_def ns fun_eq_iff)
qed

lemma root_cong_classify:
  assumes "root d' = root d"
  shows "findTargetCell d' = findTargetCell d" and "classifyRow m d' = classifyRow m d"
    and "findTreeIcon d' = findTreeIcon d"
proof -
  show t: "findTargetCell d' = findTargetCell d"
    by (simp add: findTargetCell_def root_cong[OF assms] fun_eq_iff cong: option.case_cong)
  show "classifyRow m d' = classifyRow m d"
  proof (rule ext)
    fix x show "classifyRow m d' x = classifyRow m d x"
      unfolding classifyRow_def t root_cong[OF assms] by (rule refl)
  qed
  show "findTreeIcon d' = findTreeIcon d"
  proof (rule ext)
    fix x show "findTreeIcon d' x = findTreeIcon d x"
      unfolding findTreeIcon_def root_cong[OF assms] by (rule refl)
  qed
qed

lemma root_style_set [simp]:
  "root (style_set d i p v) = root d" "fresh (style_set d i p v) = fresh d"
  by (simp_all add: style_set_def)

lemma root_hide [simp]: "root (hide d i) = root d" "fresh (hide d i) = fresh d"
  by (simp_all add: hide_def)

lemma createIconImg_facts:
  assumes "createIconImg d icon mr = (img, d')"
  shows "root d' = root d" "fresh d' = Suc (fresh d)" "eid img = fresh d"
    "repl_elt img" "is_replacement img" "tag img = ''img''"
  using assms by (auto simp: createIconImg_def Let_def repl_elt_def is_replacement_def)

section \<open>The next element of a list of siblings\<close>

lemma next_in_Nil [simp]: "next_in i [] = None"
  by (simp add: next_in_def)

lemma next_in_Cons:
  "next_in i (e # es) =
     (if eid e = i then (case es of [] \<Rightarrow> None | x # _ \<Rightarrow> Some x) else next_in i es)"
  by (simp add: next_in_def)

lemma next_in_insert_same:
  "i \<in> eid ` set es \<Longrightarrow> next_in i (insert_elt_after i n es) = Some n"
  by (induction es) (auto simp: next_in_Cons)

lemma next_in_insert_other:
  "i \<noteq> j \<Longrightarrow> eid n \<noteq> i \<Longrightarrow> next_in i (insert_elt_after j n es) = next_in i es"
proof (induction es)
  case Nil
  show ?case by simp
next
  case (Cons e es)
  then show ?case by (cases es) (auto simp: next_in_Cons)
qed

lemma next_in_prepend: "eid n \<noteq> i \<Longrightarrow> next_in i (n # es) = next_in i es"
  by (simp add: next_in_Cons)

lemma next_in_mem: "next_in i es = Some x \<Longrightarrow> x \<in> set (tl es)"
proof (induction es)
  case Nil
  then show ?case by simp
next
  case (Cons e es)
  show ?case
  proof (cases "eid e = i")
    case True
    with Cons.prems show ?thesis by (cases es) (auto simp: next_in_Cons)
  next
    case False
    with Cons.prems have "next_in i es = Some x" by (simp add: next_in_Cons)
    from Cons.IH[OF this] have "x \<in> set (tl es)" .
    then have "x \<in> set es" by (cases es) auto
    then show ?thesis by simp
  qed
qed

lemma next_in_inj:
  assumes "distinct (map eid es)" "next_in i es = Some x" "next_in j es = Some x"
  shows "i = j"
  using assms
proof (induction es)
  case Nil
  then show ?case by simp
next
  case (Cons e es)
  have hd_not_later: False if "es = y # ys" "next_in k es = Some y" for y ys k
  proof -
    from that(2) have "y \<in> set (tl es)" by (rule next_in_mem)
    with that(1) Cons.prems(1) show False by auto
  qed
  show ?case
  proof (cases "eid e = i")
    case i: True
    show ?thesis
    proof (cases "eid e = j")
      case True
      with i show ?thesis by simp
    next
      case False
      with Cons.prems(3) have nj: "next_in j es = Some x" by (simp add: next_in_Cons)
      from i Cons.prems(2) obtain ys where "es = x # ys"
        by (cases es) (auto simp: next_in_Cons)
      from hd_not_later[OF this nj] show ?thesis ..
    qed
  next
    case ni: False
    with Cons.prems(2) have nx: "next_in i es = Some x" by (simp add: next_in_Cons)
    show ?thesis
    proof (cases "eid e = j")
      case True
      with Cons.prems(3) obtain ys where "es = x # ys"
        by (cases es) (auto simp: next_in_Cons)
      from hd_not_later[OF this nx] show ?thesis ..
    next
      case False
      with Cons.prems(3) have "next_in j es = Some x" by (simp add: next_in_Cons)
      with Cons.IH nx Cons.prems(1) show ?thesis by simp
    qed
  qed
qed

lemma next_in_filter:
  assumes "i \<noteq> r" "next_in i es = Some x" "eid x \<noteq> r"
  shows "next_in i (filter (\<lambda>e. eid e \<noteq> r) es) = Some x"
  using assms
proof (induction es)
  case Nil
  then show ?case by simp
next
  case (Cons e es)
  show ?case
  proof (cases "eid e = i")
    case True
    with Cons.prems obtain ys where "es = x # ys" by (cases es) (auto simp: next_in_Cons)
    with True Cons.prems show ?thesis by (simp add: next_in_Cons)
  next
    case False
    with Cons.prems have "next_in i es = Some x" by (simp add: next_in_Cons)
    from Cons.IH[OF Cons.prems(1) this Cons.prems(3)] False show ?thesis
      by (simp add: next_in_Cons)
  qed
qed

lemma following_filter_hd:
  assumes "distinct (map eid es)" "drop 1 (dropWhile (\<lambda>e. eid e \<noteq> i) es) = r # rest"
  shows "drop 1 (dropWhile (\<lambda>e. eid e \<noteq> i) (filter (\<lambda>e. eid e \<noteq> eid r) es)) = rest"
  using assms
proof (induction es)
  case Nil
  then show ?case by simp
next
  case (Cons e es)
  show ?case
  proof (cases "eid e = i")
    case True
    with Cons.prems(2) have es: "es = r # rest" by simp
    with Cons.prems(1) have ne: "eid e \<noteq> eid r" and ni: "eid r \<notin> eid ` set rest" by auto
    from ni have "\<forall>y \<in> set rest. eid y \<noteq> eid r" by (auto simp: image_iff)
    with ne True es show ?thesis by simp
  next
    case False
    with Cons.prems have "drop 1 (dropWhile (\<lambda>e. eid e \<noteq> i) es) = r # rest" by simp
    with Cons.IH Cons.prems(1) have
      "drop 1 (dropWhile (\<lambda>e. eid e \<noteq> i) (filter (\<lambda>e. eid e \<noteq> eid r) es)) = rest" by simp
    with False show ?thesis by simp
  qed
qed

lemma matches_replacement_img [simp]:
  "matches sel_replacement_img a e \<longleftrightarrow> tag e = ''img'' \<and> is_replacement e"
  by (simp add: matches_def sel_replacement_img_def is_replacement_def)

lemma has_repl_iff:
  "has_repl d E \<longleftrightarrow>
   (\<exists>x \<in> set (doc_entries d). E \<in> eid ` set (fst x) \<and> tag (snd x) = ''img'' \<and> is_replacement (snd x))"
  unfolding has_repl_def querySelector_None by auto

lemma has_replI:
  "(a, n) \<in> set (doc_entries d) \<Longrightarrow> q \<in> set a \<Longrightarrow> tag n = ''img'' \<Longrightarrow> is_replacement n \<Longrightarrow>
   has_repl d (eid q)"
  unfolding has_repl_iff by force

lemma keeps_repl_mono:
  "set (doc_entries d) \<subseteq> set (doc_entries d') \<Longrightarrow> keeps_repl d d'"
  unfolding keeps_repl_def has_repl_iff by blast

lemma repl_elt_is_replacement: "repl_elt e \<Longrightarrow> is_replacement e"
  by (simp add: repl_elt_def is_replacement_def)

lemma svg_not_replacement:
  assumes "marked_ok d" "x \<in> set (doc_entries d)" "tag (snd x) \<noteq> ''img''"
  shows "\<not> is_replacement (snd x)"
proof
  assume "is_replacement (snd x)"
  with assms(1,2) have "repl_elt (snd x)" unfolding marked_ok_def by blast
  with assms(3) show False by (simp add: repl_elt_def)
qed

lemma children_distinct:
  assumes "udist (root d)"
  shows "distinct (map eid (elementChildren d p))"
proof -
  have "distinct (map (eid \<circ> snd) (doc_entries d))"
    using assms map_snd_entries[of "[]" "root d"]
    by (simp add: udist_def doc_entries_def flip: map_map)
  then have "distinct (map (eid \<circ> snd) (filter (child_of p) (doc_entries d)))"
    by (rule distinct_map_filter)
  then show ?thesis by (simp add: elementChildren_def)
qed

lemma nextElementSibling_next_in:
  assumes "udist (root d)" "(p # a, s) \<in> set (doc_entries d)"
  shows "nextElementSibling d (eid s) = next_in (eid s) (elementChildren d (eid p))"
    and "followingElementSiblings d (eid s)
           = drop 1 (dropWhile (\<lambda>e. eid e \<noteq> eid s) (elementChildren d (eid p)))"
  using parentNode_eq[OF assms]
  by (simp_all add: nextElementSibling_def followingElementSiblings_def next_in_def)

lemma next_is_replacement_next_in:
  assumes "udist (root d)" "(p # a, s) \<in> set (doc_entries d)"
  shows "next_is_replacement d (eid s)
           = (case next_in (eid s) (elementChildren d (eid p)) of
                None \<Rightarrow> False | Some n \<Rightarrow> is_replacement n)"
  by (simp add: next_is_replacement_def nextElementSibling_next_in[OF assms])

lemma next_is_replacement_parent:
  assumes "udist (root d)" "(c, s) \<in> set (doc_entries d)" "next_is_replacement d (eid s)"
  shows "\<exists>p a. c = p # a"
proof (cases c)
  case Nil
  with assms(1,2) have "entry_of d (eid s) = Some ([], s)" by (simp add: entry_of_eq)
  then have "nextElementSibling d (eid s) = None"
    by (simp add: nextElementSibling_def followingElementSiblings_def parentNode_def)
  with assms(3) show ?thesis by (simp add: next_is_replacement_def)
next
  case (Cons p a)
  then show ?thesis by simp
qed

lemma not_in_own_chain:
  assumes "udist (root d)" "(a, e) \<in> set (doc_entries d)"
  shows "eid e \<notin> eid ` set a"
proof
  assume "eid e \<in> eid ` set a"
  then obtain q where q: "q \<in> set a" "eid q = eid e" by auto
  then obtain pre ys where a: "a = pre @ q # ys" by (meson split_list)
  with assms(2) have "(ys, q) \<in> set (doc_entries d)"
    using chain_suffix[of pre q ys e "root d"] by (simp add: doc_entries_def)
  with assms q(2) have "(ys, q) = (a, e)"
    using unique_entry[of "root d" "(ys, q)" "[]" "(a, e)"] by (simp add: doc_entries_def)
  with a show False by simp
qed

lemma same_parent:
  assumes "udist (root d)" "(p # a, x) \<in> set (doc_entries d)" "(q # b, y) \<in> set (doc_entries d)"
    "eid p = eid q"
  shows "p = q \<and> a = b"
proof -
  have "(a, p) \<in> set (doc_entries d)" "(b, q) \<in> set (doc_entries d)"
    using assms(2,3) by (auto dest: parent_entry)
  with assms(1,4) have "(a, p) = (b, q)"
    using unique_entry[of "root d" "(a, p)" "[]" "(b, q)"] by (simp add: doc_entries_def)
  then show ?thesis by simp
qed

lemma child_entry:
  assumes "udist (root d)" "(p # a, s) \<in> set (doc_entries d)" "x \<in> set (elementChildren d (eid p))"
  shows "(p # a, x) \<in> set (doc_entries d)"
proof -
  from elementChildren_entry[OF assms(1,3)] obtain q b where
    q: "(q # b, x) \<in> set (doc_entries d)" "eid q = eid p" by auto
  from same_parent[OF assms(1,2) q(1)] q(2) have "p = q \<and> a = b" by simp
  with q(1) show ?thesis by simp
qed

lemma no_parent_no_sibling:
  assumes "udist (root d)" "([], E) \<in> set (doc_entries d)"
  shows "followingElementSiblings d (eid E) = []" "nextElementSibling d (eid E) = None"
proof -
  from assms have "entry_of d (eid E) = Some ([], E)" by (simp add: entry_of_eq)
  then show "followingElementSiblings d (eid E) = []"
    by (simp add: followingElementSiblings_def parentNode_def)
  then show "nextElementSibling d (eid E) = None" by (simp add: nextElementSibling_def)
qed

section \<open>Inserting a new image after an element\<close>

lemma page_ok_root:
  assumes "page_ok d" "root d' = root d" "fresh d \<le> fresh d'"
  shows "page_ok d'"
  using assms
  by (auto simp: page_ok_def ids_ok_def marked_ok_def pencil_ok_def root_cong(1)[OF assms(2)])

lemma fresh_not_in:
  assumes "ids_ok d" "root d2 = root d" "eid n = fresh d"
  shows "eid n \<notin> idset (root d2)"
  using assms by (auto simp: ids_ok_def)

lemma matches_file_svg_tag: "matches sel_file_svg a e \<Longrightarrow> tag e = ''svg''"
  by (simp add: matches_def sel_file_svg_def)

lemma insert_after_good:
  assumes ok: "page_ok d" and ent: "(p # a, s) \<in> set (doc_entries d)"
    and rd: "root d2 = root d" and fr: "fresh d2 = Suc (fresh d)"
    and n: "eid n = fresh d" "repl_elt n"
  defines "d' \<equiv> insertBeforeNext d2 (eid p) (eid s) (Element n [])"
  shows "good d d'" and "next_is_replacement d' (eid s)"
    and "\<And>q. q \<in> set (p # a) \<Longrightarrow> has_repl d' (eid q)"
proof -
  from ok have ids: "ids_ok d" and mk: "marked_ok d" and pc: "pencil_ok d"
    by (simp_all add: page_ok_def)
  from ids have ud: "udist (root d)" by (simp add: ids_ok_def)
  have ud2: "udist (root d2)" using ud rd by simp
  have new: "eid n \<notin> idset (root d2)" using ids rd n(1) by (rule fresh_not_in)
  have ent2: "(p # a, s) \<in> set (doc_entries d2)" using ent by (simp add: root_cong(1)[OF rd])
  note ie = insert_entries[OF ud2 new ent2, folded d'_def]
  have e2: "doc_entries d2 = doc_entries d" by (rule root_cong(1)[OF rd])
  have ch2: "elementChildren d2 = elementChildren d" by (rule root_cong(9)[OF rd])
  have set': "set (doc_entries d') = insert (p # a, n) (set (doc_entries d))"
    using ie(3) by (simp add: e2)
  have ud': "udist (root d')" by (rule ie(4))
  have root': "root d' = modify_children (eid p) (insert_after_in (eid s) (Element n [])) (root d)"
    by (simp add: d'_def insertBeforeNext_def rd)
  have fresh': "fresh d' = Suc (fresh d)" by (simp add: d'_def insertBeforeNext_def fr)
  have nrep: "is_replacement n" using n(2) by (rule repl_elt_is_replacement)
  have tx: "texts [] (root d') = texts [] (root d)" by (simp add: root' texts_insert)
  have sim: "similar d d'"
    unfolding similar_def doc_entries_def root' using nrep tx
    by (simp add: entries_insert_filter root')
  have ids': "ids_ok d'"
  proof -
    have "i < fresh d'" if "i \<in> idset (root d')" for i
    proof -
      from that ie(5) have "i = eid n \<or> i \<in> idset (root d)" by (auto simp: rd)
      with ids n(1) fresh' show ?thesis by (auto simp: ids_ok_def)
    qed
    with ud' show ?thesis by (simp add: ids_ok_def)
  qed
  have chain_ok: "\<forall>q \<in> set (p # a). \<not> is_replacement q"
    using mk ent unfolding marked_ok_def by fastforce
  have mk': "marked_ok d'"
    unfolding marked_ok_def set' tx using mk n(2) chain_ok
    by (auto simp: marked_ok_def)
  have pc': "pencil_ok d'"
    unfolding pencil_ok_def set' using pc n(2)
    by (auto simp: pencil_ok_def repl_elt_def dest: matches_file_svg_tag)
  have ok': "page_ok d'" using ids' mk' pc' by (simp add: page_ok_def)
  have sub: "set (doc_entries d) \<subseteq> set (doc_entries d')" using set' by auto
  have ent': "(p # a, s) \<in> set (doc_entries d')" using sub ent by auto
  have sin: "s \<in> set (elementChildren d (eid p))" using ent by (rule elementChildren_mem)
  show s_next: "next_is_replacement d' (eid s)"
    using next_in_insert_same[of "eid s" "elementChildren d (eid p)" n] sin nrep
    by (simp add: next_is_replacement_next_in[OF ud' ent'] ie(1) ch2)
  have kn: "keeps_next d d'"
    unfolding keeps_next_def
  proof (intro ballI impI)
    fix x assume x: "x \<in> set (doc_entries d)" and "tag (snd x) = ''svg''"
      and nx: "next_is_replacement d (eid (snd x))"
    obtain c s0 where xs: "x = (c, s0)" by (cases x)
    have xe: "(c, s0) \<in> set (doc_entries d)" and "next_is_replacement d (eid s0)"
      using x nx xs by simp_all
    from next_is_replacement_parent[OF ud this] obtain q b where c: "c = q # b" by auto
    have e0: "(q # b, s0) \<in> set (doc_entries d)" using x xs c by simp
    then have e0': "(q # b, s0) \<in> set (doc_entries d')" using sub by auto
    have s0n: "eid n \<noteq> eid s0"
      using in_entries_idset[of "(q # b, s0)" "[]" "root d"] e0 new rd
      by (auto simp: doc_entries_def)
    show "next_is_replacement d' (eid (snd x))"
    proof (cases "eid s0 = eid s")
      case True
      with s_next xs show ?thesis by simp
    next
      case ne: False
      have "next_in (eid s0) (elementChildren d' (eid q)) = next_in (eid s0) (elementChildren d (eid q))"
      proof (cases "eid q = eid p")
        case True
        then show ?thesis using ne s0n by (simp add: ie(1) ch2 next_in_insert_other)
      next
        case False
        then show ?thesis by (simp add: ie(2) ch2)
      qed
      with nx xs show ?thesis
        by (simp add: next_is_replacement_next_in[OF ud e0] next_is_replacement_next_in[OF ud' e0'])
    qed
  qed
  have kr: "keeps_repl d d'" using sub by (rule keeps_repl_mono)
  show "good d d'" using ok ok' sim kn kr by (simp add: good_def)
  show "has_repl d' (eid q)" if "q \<in> set (p # a)" for q
  proof (rule has_replI[OF _ that])
    show "(p # a, n) \<in> set (doc_entries d')" using set' by simp
    show "tag n = ''img''" using n(2) by (simp add: repl_elt_def)
    show "is_replacement n" by (rule nrep)
  qed
qed

section \<open>Inserting a new image as the first child\<close>

lemma prepend_good:
  assumes ok: "page_ok d" and ent: "(a, p) \<in> set (doc_entries d)" and pn: "\<not> is_replacement p"
    and rd: "root d2 = root d" and fr: "fresh d2 = Suc (fresh d)"
    and n: "eid n = fresh d" "repl_elt n"
  defines "d' \<equiv> insertFirst d2 (eid p) (Element n [])"
  shows "page_ok d'" and "similar d d'" and "keeps_next d d'"
    and "set (doc_entries d') = insert (p # a, n) (set (doc_entries d))"
    and "\<And>q. q \<in> set (p # a) \<Longrightarrow> has_repl d' (eid q)"
proof -
  from ok have ids: "ids_ok d" and mk: "marked_ok d" and pc: "pencil_ok d"
    by (simp_all add: page_ok_def)
  from ids have ud: "udist (root d)" by (simp add: ids_ok_def)
  have ud2: "udist (root d2)" using ud rd by simp
  have new: "eid n \<notin> idset (root d2)" using ids rd n(1) by (rule fresh_not_in)
  have ent2: "(a, p) \<in> set (doc_entries d2)" using ent by (simp add: root_cong(1)[OF rd])
  note ie = prepend_entries[OF ud2 new ent2, folded d'_def]
  have e2: "doc_entries d2 = doc_entries d" by (rule root_cong(1)[OF rd])
  have ch2: "elementChildren d2 = elementChildren d" by (rule root_cong(9)[OF rd])
  show set': "set (doc_entries d') = insert (p # a, n) (set (doc_entries d))"
    using ie(3) by (simp add: e2)
  have ud': "udist (root d')" by (rule ie(4))
  have root': "root d' = modify_children (eid p) (Cons (Element n [])) (root d)"
    by (simp add: d'_def insertFirst_def rd)
  have fresh': "fresh d' = Suc (fresh d)" by (simp add: d'_def insertFirst_def fr)
  have nrep: "is_replacement n" using n(2) by (rule repl_elt_is_replacement)
  have tx: "texts [] (root d') = texts [] (root d)" by (simp add: root' texts_prepend)
  show sim: "similar d d'"
    unfolding similar_def doc_entries_def root' using nrep tx
    by (simp add: entries_prepend_filter root')
  have ids': "ids_ok d'"
  proof -
    have "i < fresh d'" if "i \<in> idset (root d')" for i
    proof -
      from that ie(5) have "i = eid n \<or> i \<in> idset (root d)" by (auto simp: rd)
      with ids n(1) fresh' show ?thesis by (auto simp: ids_ok_def)
    qed
    with ud' show ?thesis by (simp add: ids_ok_def)
  qed
  have chain_ok: "\<forall>q \<in> set (p # a). \<not> is_replacement q"
    using mk ent pn unfolding marked_ok_def by fastforce
  have mk': "marked_ok d'"
    unfolding marked_ok_def set' tx using mk n(2) chain_ok
    by (auto simp: marked_ok_def)
  have pc': "pencil_ok d'"
    unfolding pencil_ok_def set' using pc n(2)
    by (auto simp: pencil_ok_def repl_elt_def dest: matches_file_svg_tag)
  show ok': "page_ok d'" using ids' mk' pc' by (simp add: page_ok_def)
  have sub: "set (doc_entries d) \<subseteq> set (doc_entries d')" using set' by auto
  show kn: "keeps_next d d'"
    unfolding keeps_next_def
  proof (intro ballI impI)
    fix x assume x: "x \<in> set (doc_entries d)" and "tag (snd x) = ''svg''"
      and nx: "next_is_replacement d (eid (snd x))"
    obtain c s0 where xs: "x = (c, s0)" by (cases x)
    have xe: "(c, s0) \<in> set (doc_entries d)" and "next_is_replacement d (eid s0)"
      using x nx xs by simp_all
    from next_is_replacement_parent[OF ud this] obtain q b where c: "c = q # b" by auto
    have e0: "(q # b, s0) \<in> set (doc_entries d)" using x xs c by simp
    then have e0': "(q # b, s0) \<in> set (doc_entries d')" using sub by auto
    have s0n: "eid n \<noteq> eid s0"
      using in_entries_idset[of "(q # b, s0)" "[]" "root d"] e0 new rd
      by (auto simp: doc_entries_def)
    have "next_in (eid s0) (elementChildren d' (eid q)) = next_in (eid s0) (elementChildren d (eid q))"
    proof (cases "eid q = eid p")
      case True
      then show ?thesis using s0n by (simp add: ie(1) ch2 next_in_prepend)
    next
      case False
      then show ?thesis by (simp add: ie(2) ch2)
    qed
    with nx xs show "next_is_replacement d' (eid (snd x))"
      by (simp add: next_is_replacement_next_in[OF ud e0] next_is_replacement_next_in[OF ud' e0'])
  qed
  show "has_repl d' (eid q)" if "q \<in> set (p # a)" for q
  proof (rule has_replI[OF _ that])
    show "(p # a, n) \<in> set (doc_entries d')" using set' by simp
    show "tag n = ''img''" using n(2) by (simp add: repl_elt_def)
    show "is_replacement n" by (rule nrep)
  qed
qed

section \<open>Removing the marked sibling that follows an element\<close>

lemma remove_good:
  assumes ok: "page_ok d" and ent: "(p # a, E) \<in> set (doc_entries d)" and tg: "tag E = ''a''"
    and nx: "nextElementSibling d (eid E) = Some r" and rr: "is_replacement r"
  defines "d' \<equiv> remove d (eid r)"
  shows "page_ok d'" and "similar d d'" and "keeps_next d d'" and "fresh d' = fresh d"
    and "(p # a, r) \<in> set (doc_entries d)"
    and "set (doc_entries d') = set (doc_entries d) - {(p # a, r)}"
    and "followingElementSiblings d' (eid E) = tl (followingElementSiblings d (eid E))"
proof -
  from ok have ids: "ids_ok d" and mk: "marked_ok d" and pc: "pencil_ok d"
    by (simp_all add: page_ok_def)
  from ids have ud: "udist (root d)" by (simp add: ids_ok_def)
  let ?es = "elementChildren d (eid p)"
  let ?NR = "\<lambda>x :: elt list \<times> elt. \<not> is_replacement (snd x)"
  have nE: "next_in (eid E) ?es = Some r"
    using nx by (simp add: nextElementSibling_next_in[OF ud ent])
  then have "r \<in> set (tl ?es)" by (rule next_in_mem)
  then have "r \<in> set ?es" by (cases ?es) auto
  with ud ent show rent: "(p # a, r) \<in> set (doc_entries d)" by (rule child_entry)
  have leaf: "childless (eid r) (root d)" using ids mk rent rr by (rule marked_childless)
  note re = remove_entries[OF ud leaf rent, folded d'_def]
  show set': "set (doc_entries d') = set (doc_entries d) - {(p # a, r)}" by (rule re(2))
  show fresh': "fresh d' = fresh d" by (rule re(8))
  have ud': "udist (root d')" by (rule re(3))
  have tx: "texts [] (root d') = texts [] (root d)" by (rule re(6))
  have ids': "ids_ok d'" using ids ud' re(4) fresh' by (auto simp: ids_ok_def)
  have mk': "marked_ok d'" using mk unfolding marked_ok_def set' tx by auto
  have pc': "pencil_ok d'" using pc unfolding pencil_ok_def set' by auto
  show ok': "page_ok d'" using ids' mk' pc' by (simp add: page_ok_def)
  have only: "x = (p # a, r)" if "eid (snd x) = eid r" "x \<in> set (doc_entries d)" for x
    using unique_entry[of "root d" x "[]" "(p # a, r)"] ud rent that by (simp add: doc_entries_def)
  have rid: "\<not> ?NR x" if "eid (snd x) = eid r" "x \<in> set (doc_entries d)" for x
    using only[OF that] rr by simp
  show sim: "similar d d'"
  proof -
    let ?P = "\<lambda>x :: elt list \<times> elt. ?NR x \<and> eid (snd x) \<noteq> eid r"
    have "filter ?NR (doc_entries d') = filter ?P (doc_entries d')"
      using set' rid by (intro filter_cong) auto
    also have "\<dots> = filter ?P (doc_entries d)" by (rule re(5)) simp
    also have "\<dots> = filter ?NR (doc_entries d)"
      using rid by (intro filter_cong) auto
    finally show ?thesis using tx by (simp add: similar_def)
  qed
  have En: "\<not> is_replacement E"
    using svg_not_replacement[OF mk ent] tg by simp
  have Er: "eid E \<noteq> eid r"
  proof
    assume "eid E = eid r"
    from only[of "(p # a, E)"] this ent have "E = r" by simp
    with En rr show False by simp
  qed
  have ent': "(p # a, E) \<in> set (doc_entries d')"
    using ent set' Er by auto
  have dist: "distinct (map eid ?es)" using ud by (rule children_distinct)
  have fol: "followingElementSiblings d (eid E) = drop 1 (dropWhile (\<lambda>e. eid e \<noteq> eid E) ?es)"
    by (rule nextElementSibling_next_in(2)[OF ud ent])
  from nE obtain rest where rest: "drop 1 (dropWhile (\<lambda>e. eid e \<noteq> eid E) ?es) = r # rest"
    by (cases "drop 1 (dropWhile (\<lambda>e. eid e \<noteq> eid E) ?es)") (auto simp: next_in_def)
  show "followingElementSiblings d' (eid E) = tl (followingElementSiblings d (eid E))"
    using following_filter_hd[OF dist rest] rest
    by (simp add: nextElementSibling_next_in(2)[OF ud' ent'] re(1) fol)
  show "keeps_next d d'"
    unfolding keeps_next_def
  proof (intro ballI impI)
    fix x assume x: "x \<in> set (doc_entries d)" and tsv: "tag (snd x) = ''svg''"
      and nx0: "next_is_replacement d (eid (snd x))"
    obtain c s0 where xs: "x = (c, s0)" by (cases x)
    have xe: "(c, s0) \<in> set (doc_entries d)" and nx1: "next_is_replacement d (eid s0)"
      using x nx0 xs by simp_all
    from next_is_replacement_parent[OF ud this] obtain q b where c: "c = q # b" by auto
    have e0: "(q # b, s0) \<in> set (doc_entries d)" using xe c by simp
    have s0n: "\<not> is_replacement s0"
      using svg_not_replacement[OF mk x] tsv xs by simp
    have s0r: "eid s0 \<noteq> eid r"
    proof
      assume "eid s0 = eid r"
      from only[of "(q # b, s0)"] this e0 have "s0 = r" by simp
      with s0n rr show False by simp
    qed
    have e0': "(q # b, s0) \<in> set (doc_entries d')" using e0 set' s0r by auto
    from nx1 obtain y where y: "next_in (eid s0) (elementChildren d (eid q)) = Some y"
      "is_replacement y"
      by (auto simp: next_is_replacement_next_in[OF ud e0] split: option.splits)
    have yr: "eid y \<noteq> eid r"
    proof
      assume eq: "eid y = eid r"
      from y(1) have "y \<in> set (tl (elementChildren d (eid q)))" by (rule next_in_mem)
      then have "y \<in> set (elementChildren d (eid q))" by (cases "elementChildren d (eid q)") auto
      with ud e0 have ye: "(q # b, y) \<in> set (doc_entries d)" by (rule child_entry)
      from only[OF _ ye] eq have "(q # b, y) = (p # a, r)" by simp
      then have qp: "q = p" "y = r" by simp_all
      from next_in_inj[OF dist _ nE, of "eid s0"] y(1) qp have "eid s0 = eid E" by simp
      with unique_entry[of "root d" "(q # b, s0)" "[]" "(p # a, E)"] ud e0 ent
      have "s0 = E" by (simp add: doc_entries_def)
      with tsv xs tg show False by simp
    qed
    from next_in_filter[OF s0r y(1) yr] y(2)
    show "next_is_replacement d' (eid (snd x))"
      by (simp add: xs next_is_replacement_next_in[OF ud' e0'] re(1))
  qed
qed

lemma good_refl: "page_ok d \<Longrightarrow> good d d"
  by (simp add: good_def keeps_next_def keeps_repl_def)

lemma page_ok_parts:
  assumes "page_ok d"
  shows "ids_ok d" "marked_ok d" "pencil_ok d" "udist (root d)"
  using assms by (simp_all add: page_ok_def ids_ok_def)

lemma keeps_next_trans:
  assumes "marked_ok d" "similar d d1" "keeps_next d d1" "keeps_next d1 d2"
  shows "keeps_next d d2"
  unfolding keeps_next_def
proof (intro ballI impI)
  fix x assume x: "x \<in> set (doc_entries d)" and t: "tag (snd x) = ''svg''"
    and n: "next_is_replacement d (eid (snd x))"
  have "\<not> is_replacement (snd x)" using svg_not_replacement[OF assms(1) x] t by simp
  with entry_similar[OF assms(2), of "fst x" "snd x"] x have x1: "x \<in> set (doc_entries d1)" by simp
  from assms(3) x t n have "next_is_replacement d1 (eid (snd x))" unfolding keeps_next_def by blast
  with assms(4) x1 t show "next_is_replacement d2 (eid (snd x))" unfolding keeps_next_def by blast
qed

lemma good_trans:
  assumes "good d d1" "good d1 d2"
  shows "good d d2"
proof -
  have "keeps_next d d2"
    using assms keeps_next_trans[of d d1 d2] by (simp add: good_def page_ok_parts)
  moreover have "keeps_repl d d2" using assms by (simp add: good_def keeps_repl_def)
  moreover have "similar d d2" using assms similar_trans[of d d1 d2] by (simp add: good_def)
  ultimately show ?thesis using assms by (simp add: good_def)
qed

lemma good_root:
  assumes "page_ok d" "root d' = root d" "fresh d \<le> fresh d'"
  shows "good d d'"
proof -
  have "page_ok d'" using assms by (rule page_ok_root)
  moreover have "similar d d'" by (simp add: similar_def root_cong(1)[OF assms(2)] assms(2))
  moreover have "keeps_next d d'" by (simp add: keeps_next_def root_cong[OF assms(2)])
  moreover have "keeps_repl d d'" by (simp add: keeps_repl_def has_repl_def root_cong[OF assms(2)])
  ultimately show ?thesis using assms(1) by (simp add: good_def)
qed

section \<open>What the engine reads from the page does not depend on the injected images\<close>

lemma good_struct: "good d d' \<Longrightarrow> struct d d'"
  by (simp add: good_def struct_def page_ok_parts)

lemma struct_query:
  assumes "struct d d'" "rejects_repl sel"
  shows "querySelector d' X sel = querySelector d X sel"
    and "document_querySelectorAll d' sel = document_querySelectorAll d sel"
  using assms querySelector_similar[of d d' sel X] document_querySelectorAll_similar[of d d' sel]
  by (simp_all add: struct_def)

lemma struct_text: "struct d d' \<Longrightarrow> textContent d' i = textContent d i"
  by (simp add: struct_def textContent_similar)

lemma struct_findTargetCell:
  assumes "struct d d'"
  shows "findTargetCell d' X = findTargetCell d X"
  by (simp add: findTargetCell_def struct_query[OF assms] cong: option.case_cong)

lemma struct_classifyRow:
  assumes "struct d d'"
  shows "classifyRow m d' X = classifyRow m d X"
  unfolding classifyRow_def struct_findTargetCell[OF assms] struct_text[OF assms]
    struct_query(1)[OF assms rejects_repl_sels(5)] struct_query(1)[OF assms rejects_repl_sels(6)]
    struct_query(1)[OF assms rejects_repl_sels(7)]
  by (rule refl)

lemma struct_findTreeIcon:
  assumes "struct d d'"
  shows "findTreeIcon d' X = findTreeIcon d X"
  unfolding findTreeIcon_def struct_text[OF assms]
    struct_query(1)[OF assms rejects_repl_sels(10)] struct_query(1)[OF assms rejects_repl_sels(11)]
    struct_query(1)[OF assms rejects_repl_sels(2)]
  by (rule refl)

lemma struct_entry:
  assumes "struct d d'" "(a, e) \<in> set (doc_entries d)" "tag e \<noteq> ''img''"
  shows "(a, e) \<in> set (doc_entries d')"
    and "closest d' (eid e) sel = closest d (eid e) sel"
    and "parentNode d' (eid e) = parentNode d (eid e)"
proof -
  from assms have s: "similar d d'" and m: "marked_ok d" and u: "udist (root d)" "udist (root d')"
    by (simp_all add: struct_def)
  have nr: "\<not> is_replacement e" using svg_not_replacement[OF m assms(2)] assms(3) by simp
  show "(a, e) \<in> set (doc_entries d')" using s assms(2) nr by (rule entry_similar)
  show "closest d' (eid e) sel = closest d (eid e) sel"
    using s u assms(2) nr by (rule closest_similar)
  show "parentNode d' (eid e) = parentNode d (eid e)"
    using s u assms(2) nr by (rule parentNode_similar)
qed

section \<open>What the queries of the engine find\<close>

lemma query_entry:
  assumes "querySelector d X sel = Some e"
  shows "\<exists>p a. (p # a, e) \<in> set (doc_entries d) \<and> matches sel (p # a) e \<and> X \<in> eid ` set (p # a)"
proof -
  from querySelector_Some[OF assms] obtain c where
    c: "(c, e) \<in> set (doc_entries d)" "X \<in> eid ` set c" "matches sel c e" by auto
  from c(2) obtain p a where "c = p # a" by (cases c) auto
  with c show ?thesis by blast
qed

lemma matches_svg_octicon_tag: "matches sel_svg_octicon a e \<Longrightarrow> tag e = ''svg''"
  by (simp add: matches_def sel_svg_octicon_def)

lemma matches_edit_link_tag: "matches sel_edit_link a e \<Longrightarrow> tag e = ''a''"
  by (simp add: matches_def sel_edit_link_def)

lemma classifyRow_Some:
  assumes "classifyRow m d X = Some (svg, icon)"
  shows "\<exists>p a. (p # a, svg) \<in> set (doc_entries d) \<and> matches sel_file_svg (p # a) svg"
    and "truthy icon"
proof -
  from assms obtain container :: elt where "querySelector d (eid container) sel_file_svg = Some svg"
    by (auto simp: classifyRow_def Let_def split: option.splits if_splits)
  from query_entry[OF this] show "\<exists>p a. (p # a, svg) \<in> set (doc_entries d) \<and> matches sel_file_svg (p # a) svg"
    by blast
  from assms show "truthy icon"
    by (auto simp: classifyRow_def Let_def split: option.splits if_splits)
qed

lemma findTreeIcon_Some:
  assumes "findTreeIcon d T = Some (name, svg)"
  shows "\<exists>p a. (p # a, svg) \<in> set (doc_entries d) \<and> tag svg = ''svg''"
proof -
  from assms obtain v :: elt where "querySelector d (eid v) sel_svg_octicon = Some svg"
    by (auto simp: findTreeIcon_def Let_def split: option.splits if_splits)
  from query_entry[OF this] show ?thesis by (blast dest: matches_svg_octicon_tag)
qed

lemma keeps_nextD:
  "keeps_next d d' \<Longrightarrow> (a, s) \<in> set (doc_entries d) \<Longrightarrow> tag s = ''svg'' \<Longrightarrow>
   next_is_replacement d (eid s) \<Longrightarrow> next_is_replacement d' (eid s)"
  unfolding keeps_next_def by fastforce

lemma keeps_replD: "keeps_repl d d' \<Longrightarrow> has_repl d E \<Longrightarrow> has_repl d' E"
  unfolding keeps_repl_def by blast

lemma goodD:
  assumes "good d d'"
  shows "page_ok d" "page_ok d'" "similar d d'" "keeps_next d d'" "keeps_repl d d'" "struct d d'"
  using assms good_struct[OF assms] by (simp_all add: good_def)

lemma row_settled_stable:
  assumes g: "good d d'" and s: "row_settled m d X"
  shows "row_settled m d' X"
proof -
  note st = goodD(6)[OF g]
  note q = struct_query(1)[OF st]
  show ?thesis
  proof (cases "querySelector d X sel_up_tree")
    case (Some L)
    show ?thesis
    proof (cases "querySelector d (eid L) sel_svg_octicon")
      case None
      with Some show ?thesis by (simp add: row_settled_def q)
    next
      case sv: (Some svg)
      from query_entry[OF sv] obtain p a where
        e: "(p # a, svg) \<in> set (doc_entries d)" "tag svg = ''svg''"
        by (blast dest: matches_svg_octicon_tag)
      from s Some sv have
        "next_is_replacement d (eid svg) \<or> (case defaultFolder m of None \<Rightarrow> True | Some u \<Rightarrow> u = [])"
        by (simp add: row_settled_def)
      then have
        "next_is_replacement d' (eid svg) \<or> (case defaultFolder m of None \<Rightarrow> True | Some u \<Rightarrow> u = [])"
        using keeps_nextD[OF goodD(4)[OF g] e] by blast
      with Some sv show ?thesis by (simp add: row_settled_def q)
    qed
  next
    case None
    show ?thesis
    proof (cases "classifyRow m d X")
      case cn: None
      with None show ?thesis by (simp add: row_settled_def q struct_classifyRow[OF st])
    next
      case (Some r)
      obtain svg icon where r: "r = (svg, icon)" by (cases r)
      from classifyRow_Some(1)[of m d X svg icon] Some r obtain p a where
        e: "(p # a, svg) \<in> set (doc_entries d)" "tag svg = ''svg''"
        by (auto dest: matches_file_svg_tag)
      have cl: "closest d' (eid svg) sel_edit_link = closest d (eid svg) sel_edit_link"
        using struct_entry(2)[OF st e(1)] e(2) by simp
      show ?thesis
      proof (cases "closest d (eid svg) sel_edit_link")
        case cn: None
        with s None Some r have "next_is_replacement d (eid svg)" by (simp add: row_settled_def)
        then have "next_is_replacement d' (eid svg)" using keeps_nextD[OF goodD(4)[OF g] e] by blast
        with None Some r cn cl show ?thesis
          by (simp add: row_settled_def q struct_classifyRow[OF st])
      next
        case (Some E)
        with s None \<open>classifyRow m d X = Some r\<close> r have "has_repl d (eid E)"
          by (simp add: row_settled_def)
        then have "has_repl d' (eid E)" by (rule keeps_replD[OF goodD(5)[OF g]])
        with None \<open>classifyRow m d X = Some r\<close> r Some cl show ?thesis
          by (simp add: row_settled_def q struct_classifyRow[OF st])
      qed
    qed
  qed
qed

lemma tree_settled_stable:
  assumes g: "good d d'" and s: "tree_settled m d T"
  shows "tree_settled m d' T"
proof -
  note st = goodD(6)[OF g]
  show ?thesis
  proof (cases "findTreeIcon d T")
    case None
    then show ?thesis by (simp add: tree_settled_def struct_findTreeIcon[OF st])
  next
    case (Some r)
    obtain name svg where r: "r = (name, svg)" by (cases r)
    from findTreeIcon_Some[of d T name svg] Some r obtain p a where
      e: "(p # a, svg) \<in> set (doc_entries d)" "tag svg = ''svg''" by auto
    have pn: "parentNode d' (eid svg) = parentNode d (eid svg)"
      using struct_entry(3)[OF st e(1)] e(2) by simp
    show ?thesis
    proof (cases "parentNode d (eid svg)")
      case None
      with s Some r show ?thesis by (simp add: tree_settled_def)
    next
      case (Some P)
      with s \<open>findTreeIcon d T = Some r\<close> r
      have "has_repl d (eid P) \<or> \<not> truthy (treeIcon m name svg)" by (simp add: tree_settled_def)
      then have "has_repl d' (eid P) \<or> \<not> truthy (treeIcon m name svg)"
        using keeps_replD[OF goodD(5)[OF g]] by blast
      with \<open>findTreeIcon d T = Some r\<close> r Some pn show ?thesis
        by (simp add: tree_settled_def struct_findTreeIcon[OF st])
    qed
  qed
qed

section \<open>Removing the run of marked siblings after an edit link\<close>

lemma ancestor_chain:
  assumes "udist (root d)" "(c, w) \<in> set (doc_entries d)" "(b, E) \<in> set (doc_entries d)"
    "eid E \<in> eid ` set c"
  shows "set b \<subseteq> set c" and "E \<in> set c"
proof -
  from assms(4) obtain q where q: "q \<in> set c" "eid q = eid E" by auto
  then obtain pre ys where c: "c = pre @ q # ys" by (meson split_list)
  with assms(2) have "(ys, q) \<in> set (doc_entries d)"
    using chain_suffix[of pre q ys w "root d"] by (simp add: doc_entries_def)
  with assms(1,3) q(2) have "(ys, q) = (b, E)"
    using unique_entry[of "root d" "(ys, q)" "[]" "(b, E)"] by (simp add: doc_entries_def)
  with c show "set b \<subseteq> set c" and "E \<in> set c" by auto
qed

lemma has_repl_witness:
  assumes "has_repl d E"
  obtains c w where "(c, w) \<in> set (doc_entries d)" "E \<in> eid ` set c" "tag w = ''img''"
    "is_replacement w"
  using assms unfolding has_repl_iff by force

lemma has_replI2:
  assumes "(c, w) \<in> set (doc_entries d)" "E \<in> eid ` set c" "tag w = ''img''" "is_replacement w"
  shows "has_repl d E"
  unfolding has_repl_iff using assms by (intro bexI[of _ "(c, w)"]) simp_all

lemma remove_keeps_repl:
  assumes ok: "page_ok d" and ent: "(p # a, E) \<in> set (doc_entries d)"
    and rent: "(p # a, r) \<in> set (doc_entries d)"
    and hr: "has_repl d (eid E)"
    and set': "set (doc_entries d') = set (doc_entries d) - {(p # a, r)}"
  shows "keeps_repl d d'"
  unfolding keeps_repl_def
proof (intro allI impI)
  fix E0 assume "has_repl d E0"
  then obtain c0 w0 where w0: "(c0, w0) \<in> set (doc_entries d)" "E0 \<in> eid ` set c0"
    "tag w0 = ''img''" "is_replacement w0" by (rule has_repl_witness)
  from hr obtain c w where w: "(c, w) \<in> set (doc_entries d)" "eid E \<in> eid ` set c"
    "tag w = ''img''" "is_replacement w" by (rule has_repl_witness)
  have ud: "udist (root d)" using ok by (rule page_ok_parts)
  have own: "eid E \<notin> eid ` set (p # a)" using ud ent by (rule not_in_own_chain)
  with w(2) have ne: "(c, w) \<noteq> (p # a, r)" by auto
  with w(1) set' have w': "(c, w) \<in> set (doc_entries d')" by simp
  show "has_repl d' E0"
  proof (cases "(c0, w0) = (p # a, r)")
    case False
    with w0(1) set' have "(c0, w0) \<in> set (doc_entries d')" by simp
    then show ?thesis using w0(2,3,4) by (rule has_replI2)
  next
    case True
    with w0(2) have "E0 \<in> eid ` set (p # a)" by simp
    moreover have "set (p # a) \<subseteq> set c" using ud w(1) ent w(2) by (rule ancestor_chain)
    ultimately have "E0 \<in> eid ` set c" by auto
    with w' show ?thesis using w(3,4) by (intro has_replI2[of c w]) simp_all
  qed
qed

lemma quiet_refl: "page_ok d \<Longrightarrow> quiet d d"
  by (simp add: quiet_def good_refl)

lemma quiet_trans: "quiet d d1 \<Longrightarrow> quiet d1 d2 \<Longrightarrow> quiet d d2"
  using good_trans[of d d1 d2] by (auto simp: quiet_def)

lemma quiet_good: "quiet d d' \<Longrightarrow> good d d'"
  by (simp add: quiet_def)

lemma removeAll_good:
  assumes "page_ok d" "(c, E) \<in> set (doc_entries d)" "tag E = ''a''" "has_repl d (eid E)"
    "followingElementSiblings d (eid E) = fs"
  shows "quiet d (removeAll d (map eid (takeWhile is_replacement fs)))"
  using assms
proof (induction fs arbitrary: d)
  case Nil
  then show ?case by (simp add: removeAll_def quiet_refl)
next
  case (Cons r rest)
  show ?case
  proof (cases "is_replacement r")
    case False
    with Cons.prems(1) show ?thesis by (simp add: removeAll_def quiet_refl)
  next
    case True
    have ud: "udist (root d)" using Cons.prems(1) by (rule page_ok_parts)
    have nx: "nextElementSibling d (eid E) = Some r"
      using Cons.prems(5) by (simp add: nextElementSibling_def)
    obtain p a where c: "c = p # a"
    proof (cases c)
      case Nil
      with ud Cons.prems(2) have "entry_of d (eid E) = Some ([], E)" by (simp add: entry_of_eq)
      then have "followingElementSiblings d (eid E) = []"
        by (simp add: followingElementSiblings_def parentNode_def)
      with Cons.prems(5) show ?thesis by simp
    next
      case (Cons p a)
      then show ?thesis by (rule that)
    qed
    have ent: "(p # a, E) \<in> set (doc_entries d)" using Cons.prems(2) c by simp
    let ?d1 = "remove d (eid r)"
    note rg = remove_good[OF Cons.prems(1) ent Cons.prems(3) nx True]
    have kr: "keeps_repl d ?d1"
      using Cons.prems(1) ent rg(5) Cons.prems(4) rg(6) by (rule remove_keeps_repl)
    have g1: "quiet d ?d1" using Cons.prems(1) rg(1,2,3,4,6) kr by (auto simp: good_def quiet_def)
    have Er: "E \<noteq> r"
      using svg_not_replacement[OF page_ok_parts(2)[OF Cons.prems(1)] ent] Cons.prems(3) True
      by auto
    have ent1: "(c, E) \<in> set (doc_entries ?d1)" using ent rg(6) Er c by simp
    have hr1: "has_repl ?d1 (eid E)" using kr Cons.prems(4) by (rule keeps_replD)
    have fs1: "followingElementSiblings ?d1 (eid E) = rest" using rg(7) Cons.prems(5) by simp
    from Cons.IH[OF rg(1) ent1 Cons.prems(3) hr1 fs1]
    have g2: "quiet ?d1 (removeAll ?d1 (map eid (takeWhile is_replacement rest)))" .
    have eq: "removeAll d (map eid (takeWhile is_replacement (r # rest)))
                = removeAll ?d1 (map eid (takeWhile is_replacement rest))"
      using True by (simp add: removeAll_def)
    show ?thesis unfolding eq using g1 g2 by (rule quiet_trans)
  qed
qed

section \<open>Suppressed elements\<close>

lemma hidden_style_set:
  "hidden (style_set d i p v) j = (if j = i \<and> p = ''visibility'' then v = ''hidden'' else hidden d j)"
  by (simp add: hidden_def style_get_def style_set_def)

lemma hidden_hide: "hidden (hide d i) j = (j = i \<or> hidden d j)"
  by (auto simp: hide_def hidden_style_set)

lemma hidden_createIconImg:
  assumes "createIconImg d icon mr = (img, d')"
  shows "hidden d' j = (j \<noteq> fresh d \<and> hidden d j)"
  using assms by (auto simp: createIconImg_def Let_def hidden_def style_get_def split: if_splits)

lemma hidden_styles: "styles d' = styles d \<Longrightarrow> hidden d' = hidden d"
  by (simp add: hidden_def style_get_def fun_eq_iff)

lemma styles_insertBeforeNext [simp]: "styles (insertBeforeNext d p r n) = styles d"
  by (simp add: insertBeforeNext_def)

lemma styles_insertFirst [simp]: "styles (insertFirst d p n) = styles d"
  by (simp add: insertFirst_def)

lemma matches_edit_link [simp]: "matches sel_edit_link a e = is_edit_link e"
  by (simp add: matches_def sel_edit_link_def is_edit_link_def has_class_def)

section \<open>Anchors\<close>

lemma anchored_iff:
  assumes ud: "udist (root d)" and x: "(p # a, r) \<in> set (doc_entries d)"
  shows "anchored d (p # a, r) \<longleftrightarrow>
     (\<exists>s \<in> set (elementChildren d (eid p)).
         tag s = ''svg'' \<and> hidden d (eid s) \<and> next_in (eid s) (elementChildren d (eid p)) = Some r)
     \<or> (is_edit_link p
         \<and> (case elementChildren d (eid p) of [] \<Rightarrow> False | c # cs \<Rightarrow> c = r)
         \<and> (\<exists>y \<in> set (doc_entries d).
               p \<in> set (fst y) \<and> tag (snd y) = ''svg'' \<and> hidden d (eid (snd y))))"
proof -
  have eq: "nextElementSibling d (eid s) = next_in (eid s) (elementChildren d (eid p))"
    if "s \<in> set (elementChildren d (eid p))" for s
    using nextElementSibling_next_in(1)[OF ud child_entry[OF ud x that]] .
  have "(\<exists>s \<in> set (elementChildren d (eid p)).
            tag s = ''svg'' \<and> hidden d (eid s) \<and> nextElementSibling d (eid s) = Some r)
      = (\<exists>s \<in> set (elementChildren d (eid p)).
            tag s = ''svg'' \<and> hidden d (eid s) \<and> next_in (eid s) (elementChildren d (eid p)) = Some r)"
    by (intro bex_cong refl) (simp add: eq)
  then show ?thesis by (simp add: anchored_def cong: list.case_cong)
qed

lemma hd_not_in_tl:
  assumes "distinct (map eid es)" "x \<in> set (tl es)"
  shows "es \<noteq> [] \<and> eid (hd es) \<noteq> eid x"
  using assms by (cases es) auto

lemma anchored_prev:
  assumes ok: "page_ok d" and x: "(p # a, r) \<in> set (doc_entries d)"
    and an: "anchored d (p # a, r)"
    and y: "(p # a, e) \<in> set (doc_entries d)"
    and nx: "nextElementSibling d (eid e) = Some r"
  shows "tag e = ''svg''"
proof -
  note ud = page_ok_parts(4)[OF ok]
  let ?es = "elementChildren d (eid p)"
  have dist: "distinct (map eid ?es)" using ud by (rule children_distinct)
  have ne: "next_in (eid e) ?es = Some r" using nx by (simp add: nextElementSibling_next_in(1)[OF ud y])
  from an[unfolded anchored_iff[OF ud x]] show ?thesis
  proof
    assume "\<exists>s \<in> set ?es. tag s = ''svg'' \<and> hidden d (eid s) \<and> next_in (eid s) ?es = Some r"
    then obtain s where s: "s \<in> set ?es" "tag s = ''svg''" "next_in (eid s) ?es = Some r" by blast
    from next_in_inj[OF dist s(3) ne] have "eid s = eid e" .
    moreover have "(p # a, s) \<in> set (doc_entries d)" using ud x s(1) by (rule child_entry)
    ultimately have "s = e"
      using unique_entry[of "root d" "(p # a, s)" "[]" "(p # a, e)"] ud y by (simp add: doc_entries_def)
    with s(2) show ?thesis by simp
  next
    assume "is_edit_link p \<and> (case ?es of [] \<Rightarrow> False | c # cs \<Rightarrow> c = r)
            \<and> (\<exists>y \<in> set (doc_entries d). p \<in> set (fst y) \<and> tag (snd y) = ''svg'' \<and> hidden d (eid (snd y)))"
    then obtain cs where es: "?es = r # cs" by (cases ?es) auto
    from ne have "r \<in> set (tl ?es)" by (rule next_in_mem)
    from hd_not_in_tl[OF dist this] es show ?thesis by simp
  qed
qed

lemma next_entry:
  assumes ud: "udist (root d)" and y: "(p # a, e) \<in> set (doc_entries d)"
    and nx: "nextElementSibling d (eid e) = Some r"
  shows "(p # a, r) \<in> set (doc_entries d)"
proof -
  have "next_in (eid e) (elementChildren d (eid p)) = Some r"
    using nx by (simp add: nextElementSibling_next_in(1)[OF ud y])
  then have "r \<in> set (tl (elementChildren d (eid p)))" by (rule next_in_mem)
  then have "r \<in> set (elementChildren d (eid p))" by (cases "elementChildren d (eid p)") auto
  with ud y show ?thesis by (rule child_entry)
qed


lemma paired_no_marked_sibling:
  assumes ok: "page_ok d" and pr: "paired d" and E: "(ys, E) \<in> set (doc_entries d)"
    and tg: "tag E = ''a''"
  shows "takeWhile is_replacement (followingElementSiblings d (eid E)) = []"
    and "(case nextElementSibling d (eid E) of
            None \<Rightarrow> d
          | Some siblingIcon \<Rightarrow>
              if is_replacement siblingIcon then remove d (eid siblingIcon) else d) = d"
proof -
  note ud = page_ok_parts(4)[OF ok]
  have no: "\<not> is_replacement r" if nx: "nextElementSibling d (eid E) = Some r" for r
  proof
    assume r: "is_replacement r"
    obtain p a where c: "ys = p # a"
    proof (cases ys)
      case Nil
      with no_parent_no_sibling(2)[OF ud] E nx show ?thesis by simp
    next
      case (Cons p a)
      then show ?thesis by (rule that)
    qed
    have e: "(p # a, E) \<in> set (doc_entries d)" using E c by simp
    have e2: "(p # a, r) \<in> set (doc_entries d)" using ud e nx by (rule next_entry)
    have "anchored d (p # a, r)" using pr e2 r unfolding paired_def by fastforce
    from anchored_prev[OF ok e2 this e nx] tg show False by simp
  qed
  show "takeWhile is_replacement (followingElementSiblings d (eid E)) = []"
  proof (cases "followingElementSiblings d (eid E)")
    case Nil
    then show ?thesis by simp
  next
    case (Cons r rest)
    then have "nextElementSibling d (eid E) = Some r" by (simp add: nextElementSibling_def)
    from no[OF this] Cons show ?thesis by simp
  qed
  show "(case nextElementSibling d (eid E) of
            None \<Rightarrow> d
          | Some siblingIcon \<Rightarrow>
              if is_replacement siblingIcon then remove d (eid siblingIcon) else d) = d"
    using no by (cases "nextElementSibling d (eid E)") auto
qed

section \<open>Pairs of a suppressed icon and an injected image\<close>

lemma covered_mono:
  assumes "keeps_repl d d'" "covered d x"
  shows "covered d' x"
proof (cases "fst x")
  case Nil
  with assms(2) show ?thesis by (simp add: covered_def)
next
  case (Cons p a)
  with assms(2) have "has_repl d (eid p) \<or> (\<exists>E \<in> set (p # a). is_edit_link E \<and> has_repl d (eid E))"
    by (simp add: covered_def)
  then have "has_repl d' (eid p) \<or> (\<exists>E \<in> set (p # a). is_edit_link E \<and> has_repl d' (eid E))"
    using keeps_replD[OF assms(1)] by blast
  with Cons show ?thesis by (simp add: covered_def)
qed

lemma old_id:
  assumes "ids_ok d" "(c, e) \<in> set (doc_entries d)"
  shows "eid e < fresh d"
  using assms in_entries_idset[of "(c, e)" "[]" "root d"] by (auto simp: ids_ok_def doc_entries_def)

lemma set_insert_elt_after_ge: "set es \<subseteq> set (insert_elt_after i n es)"
  by (induction es) auto

lemma insert_elt_after_hd:
  "insert_elt_after i n (e # es) = e # (if eid e = i then n # es else insert_elt_after i n es)"
  by simp

lemma anchored_nonempty: "anchored d (c, r) \<Longrightarrow> \<exists>q b. c = q # b"
  by (cases c) (simp_all add: anchored_def)

lemma paired_insert_after:
  assumes ok: "page_ok d" and pr: "paired d" and tsv: "tag s = ''svg''"
    and nn: "\<not> next_is_replacement d (eid s)" and ia: "inserted_after d s d'"
  shows "paired d'"
proof -
  from ia obtain p a d2 n where ent: "(p # a, s) \<in> set (doc_entries d)" and rd: "root d2 = root d"
    and fr: "fresh d2 = Suc (fresh d)" and n: "eid n = fresh d" "repl_elt n"
    and hd2: "\<And>i. hidden d2 i = (i \<noteq> eid n \<and> (hidden d i \<or> i = eid s))"
    and d': "d' = insertBeforeNext d2 (eid p) (eid s) (Element n [])"
    unfolding inserted_after_def by blast
  note ids = page_ok_parts(1)[OF ok] and mk = page_ok_parts(2)[OF ok] and ud = page_ok_parts(4)[OF ok]
  have ud2: "udist (root d2)" using ud rd by simp
  have new: "eid n \<notin> idset (root d2)" using ids rd n(1) by (rule fresh_not_in)
  have ent2: "(p # a, s) \<in> set (doc_entries d2)" using ent by (simp add: root_cong(1)[OF rd])
  note ie = insert_entries[OF ud2 new ent2, folded d']
  have ch2: "elementChildren d2 = elementChildren d" by (rule root_cong(9)[OF rd])
  have e2: "doc_entries d2 = doc_entries d" by (rule root_cong(1)[OF rd])
  have set': "set (doc_entries d') = insert (p # a, n) (set (doc_entries d))"
    using ie(3) by (simp add: e2)
  have ud': "udist (root d')" by (rule ie(4))
  have hd': "hidden d' i = (i \<noteq> eid n \<and> (hidden d i \<or> i = eid s))" for i
    using hd2[of i] hidden_styles[of d' d2] by (simp add: d')
  note g = insert_after_good(1)[OF ok ent rd fr n, folded d']
  note hp = insert_after_good(3)[OF ok ent rd fr n, folded d']
  have nrep: "is_replacement n" using n(2) by (rule repl_elt_is_replacement)
  have sn: "eid s \<noteq> eid n" using old_id[OF ids ent] n(1) by simp
  let ?es = "elementChildren d (eid p)"
  have sin: "s \<in> set ?es" using ent by (rule elementChildren_mem)
  have chp: "elementChildren d' (eid p) = insert_elt_after (eid s) n ?es" using ie(1) by (simp add: ch2)
  have cho: "elementChildren d' q = elementChildren d q" if "q \<noteq> eid p" for q
    using ie(2)[OF that] by (simp add: ch2)
  have new_anch: "anchored d' (p # a, n)"
  proof -
    have x': "(p # a, n) \<in> set (doc_entries d')" using set' by simp
    have "s \<in> set (elementChildren d' (eid p))" using sin set_insert_elt_after_ge chp by auto
    moreover have "hidden d' (eid s)" using sn by (simp add: hd')
    moreover have "next_in (eid s) (elementChildren d' (eid p)) = Some n"
      unfolding chp using sin by (intro next_in_insert_same) auto
    ultimately show ?thesis using tsv unfolding anchored_iff[OF ud' x'] by blast
  qed
  have old_anch: "anchored d' (c, e)"
    if x: "(c, e) \<in> set (doc_entries d)" and r: "is_replacement e" for c e
  proof -
    have an: "anchored d (c, e)" using pr x r unfolding paired_def by fastforce
    from anchored_nonempty[OF an] obtain q b where c: "c = q # b" by blast
    have xq: "(q # b, e) \<in> set (doc_entries d)" using x c by simp
    have xq': "(q # b, e) \<in> set (doc_entries d')" using xq set' by simp
    let ?cs = "elementChildren d (eid q)"
    let ?cs' = "elementChildren d' (eid q)"
    from an[unfolded c anchored_iff[OF ud xq]] show ?thesis unfolding c anchored_iff[OF ud' xq']
    proof (elim disjE)
      assume "\<exists>s0 \<in> set ?cs. tag s0 = ''svg'' \<and> hidden d (eid s0) \<and> next_in (eid s0) ?cs = Some e"
      then obtain s0 where s0: "s0 \<in> set ?cs" "tag s0 = ''svg''" "hidden d (eid s0)"
        "next_in (eid s0) ?cs = Some e" by blast
      have s0e: "(q # b, s0) \<in> set (doc_entries d)" using ud xq s0(1) by (rule child_entry)
      have ne: "eid s0 \<noteq> eid s"
      proof
        assume eq: "eid s0 = eid s"
        with unique_entry[of "root d" "(q # b, s0)" "[]" "(p # a, s)"] ud s0e ent
        have "q = p" "s0 = s" by (simp_all add: doc_entries_def)
        with s0(4) r have "next_is_replacement d (eid s)"
          by (simp add: next_is_replacement_next_in[OF ud ent])
        with nn show False by simp
      qed
      have s0n: "eid n \<noteq> eid s0" using old_id[OF ids s0e] n(1) by simp
      have "s0 \<in> set ?cs' \<and> next_in (eid s0) ?cs' = Some e"
      proof (cases "eid q = eid p")
        case True
        then show ?thesis
          using s0(1,4) ne s0n set_insert_elt_after_ge[of ?es "eid s" n]
          by (auto simp: chp next_in_insert_other)
      next
        case False
        then show ?thesis using s0(1,4) by (simp add: cho)
      qed
      moreover have "hidden d' (eid s0)" using s0(3) s0n by (simp add: hd')
      ultimately show "(\<exists>s0 \<in> set ?cs'. tag s0 = ''svg'' \<and> hidden d' (eid s0)
                          \<and> next_in (eid s0) ?cs' = Some e)
                      \<or> (is_edit_link q \<and> (case ?cs' of [] \<Rightarrow> False | c # cs \<Rightarrow> c = e)
                          \<and> (\<exists>y \<in> set (doc_entries d'). q \<in> set (fst y) \<and> tag (snd y) = ''svg''
                                \<and> hidden d' (eid (snd y))))"
        using s0(2) by blast
    next
      assume "is_edit_link q \<and> (case ?cs of [] \<Rightarrow> False | c # cs \<Rightarrow> c = e)
              \<and> (\<exists>y \<in> set (doc_entries d). q \<in> set (fst y) \<and> tag (snd y) = ''svg''
                    \<and> hidden d (eid (snd y)))"
      then obtain cs y where el: "is_edit_link q" and cs: "?cs = e # cs"
        and y: "y \<in> set (doc_entries d)" "q \<in> set (fst y)" "tag (snd y) = ''svg''"
          "hidden d (eid (snd y))"
        by (cases ?cs) auto
      have "\<exists>cs'. ?cs' = e # cs'"
      proof (cases "eid q = eid p")
        case True
        then show ?thesis using cs by (simp add: chp)
      next
        case False
        then show ?thesis using cs by (simp add: cho)
      qed
      then have hd: "(case ?cs' of [] \<Rightarrow> False | c # cs \<Rightarrow> c = e)" by auto
      have "eid (snd y) \<noteq> eid n" using old_id[OF ids, of "fst y" "snd y"] y(1) n(1) by simp
      then have "hidden d' (eid (snd y))" using y(4) by (simp add: hd')
      moreover have "y \<in> set (doc_entries d')" using y(1) set' by simp
      ultimately have "\<exists>y \<in> set (doc_entries d'). q \<in> set (fst y) \<and> tag (snd y) = ''svg''
                          \<and> hidden d' (eid (snd y))"
        using y(2,3) by blast
      with el hd show "(\<exists>s0 \<in> set ?cs'. tag s0 = ''svg'' \<and> hidden d' (eid s0)
                          \<and> next_in (eid s0) ?cs' = Some e)
                      \<or> (is_edit_link q \<and> (case ?cs' of [] \<Rightarrow> False | c # cs \<Rightarrow> c = e)
                          \<and> (\<exists>y \<in> set (doc_entries d'). q \<in> set (fst y) \<and> tag (snd y) = ''svg''
                                \<and> hidden d' (eid (snd y))))"
        by blast
    qed
  qed
  have cov: "covered d' (c, e)"
    if x: "(c, e) \<in> set (doc_entries d)" and h: "hidden d' (eid e)" for c e
  proof (cases "eid e = eid s")
    case True
    with unique_entry[of "root d" "(c, e)" "[]" "(p # a, s)"] ud x ent
    have "c = p # a" by (simp add: doc_entries_def)
    then show ?thesis using hp[of p] by (simp add: covered_def)
  next
    case False
    with h have "hidden d (eid e)" by (simp add: hd')
    then have "covered d (c, e)" using pr x unfolding paired_def by fastforce
    then show ?thesis by (rule covered_mono[OF goodD(5)[OF g]])
  qed
  show ?thesis
    unfolding paired_def
  proof (intro ballI conjI impI)
    fix x assume x: "x \<in> set (doc_entries d')" and r: "is_replacement (snd x)"
    show "anchored d' x"
    proof (cases "x = (p # a, n)")
      case True
      then show ?thesis using new_anch by simp
    next
      case False
      with x set' have "(fst x, snd x) \<in> set (doc_entries d)" by simp
      from old_anch[OF this r] show ?thesis by simp
    qed
  next
    fix x assume x: "x \<in> set (doc_entries d')" and h: "hidden d' (eid (snd x))"
    show "covered d' x"
    proof (cases "x = (p # a, n)")
      case True
      with h show ?thesis by (simp add: hd')
    next
      case False
      with x set' have "(fst x, snd x) \<in> set (doc_entries d)" by simp
      from cov[OF this h] show ?thesis by simp
    qed
  qed
qed

lemma paired_prepend:
  assumes ok: "page_ok d" and pr: "paired d" and E: "(ys, E) \<in> set (doc_entries d)"
    and el: "is_edit_link E" and nh: "\<not> has_repl d (eid E)"
    and f: "(c, f) \<in> set (doc_entries d)" "E \<in> set c" "tag f = ''svg''"
    and pp: "prepended d E f d'"
  shows "paired d'"
proof -
  from pp obtain d3 n where rd: "root d3 = root d"
    and fr: "fresh d3 = Suc (fresh d)" and n: "eid n = fresh d" "repl_elt n"
    and hd3: "\<And>i. hidden d3 i = (i \<noteq> eid n \<and> (hidden d i \<or> i = eid f))"
    and d': "d' = insertFirst d3 (eid E) (Element n [])"
    unfolding prepended_def by blast
  note ids = page_ok_parts(1)[OF ok] and mk = page_ok_parts(2)[OF ok] and ud = page_ok_parts(4)[OF ok]
  have ud3: "udist (root d3)" using ud rd by simp
  have new: "eid n \<notin> idset (root d3)" using ids rd n(1) by (rule fresh_not_in)
  have E3: "(ys, E) \<in> set (doc_entries d3)" using E by (simp add: root_cong(1)[OF rd])
  note ie = prepend_entries[OF ud3 new E3, folded d']
  have ch3: "elementChildren d3 = elementChildren d" by (rule root_cong(9)[OF rd])
  have e3: "doc_entries d3 = doc_entries d" by (rule root_cong(1)[OF rd])
  have set': "set (doc_entries d') = insert (E # ys, n) (set (doc_entries d))"
    using ie(3) by (simp add: e3)
  have ud': "udist (root d')" by (rule ie(4))
  have hd': "hidden d' i = (i \<noteq> eid n \<and> (hidden d i \<or> i = eid f))" for i
    using hd3[of i] hidden_styles[of d' d3] by (simp add: d')
  have En: "\<not> is_replacement E"
    using svg_not_replacement[OF mk E] el by (simp add: is_edit_link_def)
  note pg = prepend_good[OF ok E En rd fr n, folded d']
  have kr: "keeps_repl d d'" using set' by (intro keeps_repl_mono) auto
  have nrep: "is_replacement n" using n(2) by (rule repl_elt_is_replacement)
  have fn: "eid f \<noteq> eid n" using old_id[OF ids f(1)] n(1) by simp
  let ?es = "elementChildren d (eid E)"
  have chp: "elementChildren d' (eid E) = n # ?es" using ie(1) by (simp add: ch3)
  have cho: "elementChildren d' q = elementChildren d q" if "q \<noteq> eid E" for q
    using ie(2)[OF that] by (simp add: ch3)
  have new_anch: "anchored d' (E # ys, n)"
  proof -
    have x': "(E # ys, n) \<in> set (doc_entries d')" using set' by simp
    have "(c, f) \<in> set (doc_entries d')" using f(1) set' by simp
    moreover have "hidden d' (eid f)" using fn by (simp add: hd')
    ultimately have "\<exists>y \<in> set (doc_entries d'). E \<in> set (fst y) \<and> tag (snd y) = ''svg''
                        \<and> hidden d' (eid (snd y))"
      using f(2,3) by force
    then show ?thesis using el unfolding anchored_iff[OF ud' x'] by (simp add: chp)
  qed
  have old_anch: "anchored d' (c0, e)"
    if x: "(c0, e) \<in> set (doc_entries d)" and r: "is_replacement e" for c0 e
  proof -
    have an: "anchored d (c0, e)" using pr x r unfolding paired_def by fastforce
    from anchored_nonempty[OF an] obtain q b where c: "c0 = q # b" by blast
    have xq: "(q # b, e) \<in> set (doc_entries d)" using x c by simp
    have xq': "(q # b, e) \<in> set (doc_entries d')" using xq set' by simp
    have qE: "eid q \<noteq> eid E"
    proof
      assume eq: "eid q = eid E"
      have "(b, q) \<in> set (doc_entries d)" using xq by (rule parent_entry)
      with unique_entry[of "root d" "(b, q)" "[]" "(ys, E)"] ud E eq
      have "q = E" by (simp add: doc_entries_def)
      moreover have "tag e = ''img''" using mk x r unfolding marked_ok_def repl_elt_def by fastforce
      ultimately have "has_repl d (eid E)" using has_replI[OF xq, of q] r by simp
      with nh show False by simp
    qed
    let ?cs = "elementChildren d (eid q)"
    let ?cs' = "elementChildren d' (eid q)"
    have cs': "?cs' = ?cs" using qE by (simp add: cho)
    from an[unfolded c anchored_iff[OF ud xq]] show ?thesis
      unfolding c anchored_iff[OF ud' xq'] cs'
    proof (elim disjE)
      assume "\<exists>s0 \<in> set ?cs. tag s0 = ''svg'' \<and> hidden d (eid s0) \<and> next_in (eid s0) ?cs = Some e"
      then obtain s0 where s0: "s0 \<in> set ?cs" "tag s0 = ''svg''" "hidden d (eid s0)"
        "next_in (eid s0) ?cs = Some e" by blast
      have s0e: "(q # b, s0) \<in> set (doc_entries d)" using ud xq s0(1) by (rule child_entry)
      have s0n: "eid n \<noteq> eid s0" using old_id[OF ids s0e] n(1) by simp
      have "hidden d' (eid s0)" using s0(3) s0n by (simp add: hd')
      then show "(\<exists>s0 \<in> set ?cs. tag s0 = ''svg'' \<and> hidden d' (eid s0)
                          \<and> next_in (eid s0) ?cs = Some e)
                      \<or> (is_edit_link q \<and> (case ?cs of [] \<Rightarrow> False | c # cs \<Rightarrow> c = e)
                          \<and> (\<exists>y \<in> set (doc_entries d'). q \<in> set (fst y) \<and> tag (snd y) = ''svg''
                                \<and> hidden d' (eid (snd y))))"
        using s0(1,2,4) by blast
    next
      assume "is_edit_link q \<and> (case ?cs of [] \<Rightarrow> False | c # cs \<Rightarrow> c = e)
              \<and> (\<exists>y \<in> set (doc_entries d). q \<in> set (fst y) \<and> tag (snd y) = ''svg''
                    \<and> hidden d (eid (snd y)))"
      then obtain y where el: "is_edit_link q" and hd: "(case ?cs of [] \<Rightarrow> False | c # cs \<Rightarrow> c = e)"
        and y: "y \<in> set (doc_entries d)" "q \<in> set (fst y)" "tag (snd y) = ''svg''"
          "hidden d (eid (snd y))"
        by auto
      have "eid (snd y) \<noteq> eid n" using old_id[OF ids, of "fst y" "snd y"] y(1) n(1) by simp
      then have "hidden d' (eid (snd y))" using y(4) by (simp add: hd')
      moreover have "y \<in> set (doc_entries d')" using y(1) set' by simp
      ultimately have "\<exists>y \<in> set (doc_entries d'). q \<in> set (fst y) \<and> tag (snd y) = ''svg''
                          \<and> hidden d' (eid (snd y))"
        using y(2,3) by blast
      with el hd show "(\<exists>s0 \<in> set ?cs. tag s0 = ''svg'' \<and> hidden d' (eid s0)
                          \<and> next_in (eid s0) ?cs = Some e)
                      \<or> (is_edit_link q \<and> (case ?cs of [] \<Rightarrow> False | c # cs \<Rightarrow> c = e)
                          \<and> (\<exists>y \<in> set (doc_entries d'). q \<in> set (fst y) \<and> tag (snd y) = ''svg''
                                \<and> hidden d' (eid (snd y))))"
        by blast
    qed
  qed
  have cov: "covered d' (c0, e)"
    if x: "(c0, e) \<in> set (doc_entries d)" and h: "hidden d' (eid e)" for c0 e
  proof (cases "eid e = eid f")
    case True
    with unique_entry[of "root d" "(c0, e)" "[]" "(c, f)"] ud x f(1)
    have c0: "c0 = c" by (simp add: doc_entries_def)
    from f(2) obtain p a where c: "c = p # a" by (cases c) auto
    have "has_repl d' (eid E)" by (rule pg(5)) simp
    with f(2) el c0 c show ?thesis by (auto simp: covered_def)
  next
    case False
    with h have "hidden d (eid e)" by (simp add: hd')
    then have "covered d (c0, e)" using pr x unfolding paired_def by fastforce
    then show ?thesis by (rule covered_mono[OF kr])
  qed
  show ?thesis
    unfolding paired_def
  proof (intro ballI conjI impI)
    fix x assume x: "x \<in> set (doc_entries d')" and r: "is_replacement (snd x)"
    show "anchored d' x"
    proof (cases "x = (E # ys, n)")
      case True
      then show ?thesis using new_anch by simp
    next
      case False
      with x set' have "(fst x, snd x) \<in> set (doc_entries d)" by simp
      from old_anch[OF this r] show ?thesis by simp
    qed
  next
    fix x assume x: "x \<in> set (doc_entries d')" and h: "hidden d' (eid (snd x))"
    show "covered d' x"
    proof (cases "x = (E # ys, n)")
      case True
      with h show ?thesis by (simp add: hd')
    next
      case False
      with x set' have "(fst x, snd x) \<in> set (doc_entries d)" by simp
      from cov[OF this h] show ?thesis by simp
    qed
  qed
qed

lemma paired_hide:
  assumes ok: "page_ok d" and pr: "paired d" and ent: "(p # a, s) \<in> set (doc_entries d)"
    and hr: "has_repl d (eid p)"
  shows "paired (hide d (eid s))"
proof -
  let ?d' = "hide d (eid s)"
  have rd: "root ?d' = root d" by simp
  note rc = root_cong[OF rd]
  have hr': "has_repl ?d' = has_repl d" by (simp add: has_repl_def rc fun_eq_iff)
  have hd': "hidden ?d' i = (i = eid s \<or> hidden d i)" for i by (rule hidden_hide)
  have anch: "anchored ?d' x" if "anchored d x" for x
  proof (cases "fst x")
    case Nil
    with that show ?thesis by (simp add: anchored_def)
  next
    case (Cons q b)
    with that show ?thesis
      unfolding anchored_def rc(1) rc(9) rc(11) by (auto simp: hd')
  qed
  have cov: "covered ?d' x" if "covered d x" for x
    using that unfolding covered_def hr' .
  have "covered ?d' (p # a, s)" using hr by (simp add: covered_def hr')
  moreover have "x = (p # a, s)" if "x \<in> set (doc_entries d)" "eid (snd x) = eid s" for x
    using unique_entry[of "root d" x "[]" "(p # a, s)"] page_ok_parts(4)[OF ok] ent that
    by (simp add: doc_entries_def)
  ultimately show ?thesis
    using pr anch cov unfolding paired_def rc(1) by (auto simp: hd')
qed

lemma closest_edit_link:
  assumes ud: "udist (root d)" and ent: "(p # a, svg) \<in> set (doc_entries d)"
    and tg: "tag svg = ''svg''" and cl: "closest d (eid svg) sel_edit_link = Some E"
  shows "\<exists>ys. (ys, E) \<in> set (doc_entries d) \<and> E \<in> set (p # a)" and "tag E = ''a''"
    and "is_edit_link E"
proof -
  from cl have ci: "closest_in sel_edit_link (p # a) svg = Some E"
    by (simp add: closest_def entry_of_eq[OF ud ent])
  from closest_in_Some[OF ci] tg obtain pre ys where
    c: "p # a = pre @ E # ys" "matches sel_edit_link ys E"
    by (auto simp: is_edit_link_def)
  from c(2) show "tag E = ''a''" by (simp add: is_edit_link_def)
  from c(2) show "is_edit_link E" by simp
  from ent c(1) have "(ys, E) \<in> set (doc_entries d)"
    using chain_suffix[of pre E ys svg "root d"] by (simp add: doc_entries_def)
  moreover have "E \<in> set (p # a)" unfolding c(1) by simp
  ultimately show "\<exists>ys. (ys, E) \<in> set (doc_entries d) \<and> E \<in> set (p # a)" by blast
qed

section \<open>A settled item is left without a new image\<close>

lemma row_settled_step:
  assumes ok: "page_ok d" and s: "row_settled m d X"
  shows "\<exists>d'. replaceIconForItem m X st d = Inr (d', st) \<and> quiet d d' \<and> (paired d \<longrightarrow> paired d')"
proof -
  note ud = page_ok_parts(4)[OF ok]
  note same = quiet_refl[OF ok]
  show ?thesis
  proof (cases "querySelector d X sel_up_tree")
    case (Some L)
    show ?thesis
    proof (cases "querySelector d (eid L) sel_svg_octicon")
      case None
      with Some same show ?thesis by (simp add: replaceIconForItem_def replaceParentDir_def)
    next
      case sv: (Some svg)
      from s Some sv have
        "next_is_replacement d (eid svg) \<or> (case defaultFolder m of None \<Rightarrow> True | Some u \<Rightarrow> u = [])"
        by (simp add: row_settled_def)
      with Some sv same show ?thesis
        by (auto simp: replaceIconForItem_def replaceParentDir_def split: option.splits)
    qed
  next
    case None
    show ?thesis
    proof (cases "classifyRow m d X")
      case cn: None
      with None same show ?thesis by (simp add: replaceIconForItem_def)
    next
      case (Some r)
      obtain svg icon where r: "r = (svg, icon)" by (cases r)
      from classifyRow_Some(1)[of m d X svg icon] Some r obtain p a where
        e: "(p # a, svg) \<in> set (doc_entries d)" "tag svg = ''svg''"
        by (auto dest: matches_file_svg_tag)
      show ?thesis
      proof (cases "closest d (eid svg) sel_edit_link")
        case cn: None
        with s None Some r have "next_is_replacement d (eid svg)" by (simp add: row_settled_def)
        with None Some r cn same show ?thesis
          by (simp add: replaceIconForItem_def replaceNormal_def)
      next
        case cs: (Some E)
        with s None Some r have hr: "has_repl d (eid E)" by (simp add: row_settled_def)
        from closest_edit_link[OF ud e cs] obtain ys where
          E: "(ys, E) \<in> set (doc_entries d)" "tag E = ''a''" by blast
        let ?d' = "removeAll d (map eid (takeWhile is_replacement (followingElementSiblings d (eid E))))"
        from removeAll_good[OF ok E hr refl] have g: "quiet d ?d'" .
        have g2: "paired d \<longrightarrow> paired ?d'"
          using paired_no_marked_sibling(1)[OF ok _ E] by (auto simp: removeAll_def)
        from hr obtain x where "querySelector d (eid E) sel_replacement_img = Some x"
          by (auto simp: has_repl_def)
        then have "replaceIconForItem m X st d = Inr (?d', st)"
          using None Some r cs by (simp add: replaceIconForItem_def replaceInEditLink_def)
        with g g2 show ?thesis by blast
      qed
    qed
  qed
qed

lemma tree_settled_step:
  assumes ok: "page_ok d" and s: "tree_settled m d T"
  shows "\<exists>d'. replaceIconForTreeItem m T st d = Inr (d', st) \<and> quiet d d' \<and> (paired d \<longrightarrow> paired d')"
proof -
  note same = quiet_refl[OF ok]
  show ?thesis
  proof (cases "findTreeIcon d T")
    case None
    with same show ?thesis by (simp add: replaceIconForTreeItem_def)
  next
    case (Some r)
    obtain name svg where r: "r = (name, svg)" by (cases r)
    show ?thesis
    proof (cases "parentNode d (eid svg)")
      case None
      with s Some r show ?thesis by (simp add: tree_settled_def)
    next
      case pn: (Some P)
      with s Some r have hr: "has_repl d (eid P) \<or> \<not> truthy (treeIcon m name svg)"
        by (simp add: tree_settled_def)
      show ?thesis
      proof (cases "querySelector d (eid P) sel_replacement_img")
        case None
        with hr have "\<not> truthy (treeIcon m name svg)" by (simp add: has_repl_def)
        with None Some r pn same show ?thesis by (simp add: replaceIconForTreeItem_def)
      next
        case ex: (Some x)
        have "good d (hide d (eid svg))" using ok by (rule good_root) simp_all
        then have q: "quiet d (hide d (eid svg))"
          by (simp add: quiet_def root_cong(1)[of "hide d (eid svg)" d])
        from findTreeIcon_Some[of d T name svg] Some r obtain p a where
          e: "(p # a, svg) \<in> set (doc_entries d)" by auto
        from parentNode_eq[OF page_ok_parts(4)[OF ok] e] pn have "P = p" by simp
        with ex have "has_repl d (eid p)" by (simp add: has_repl_def)
        then have "paired d \<longrightarrow> paired (hide d (eid svg))"
          using paired_hide[OF ok _ e] by blast
        with q ex Some r pn show ?thesis by (simp add: replaceIconForTreeItem_def)
      qed
    qed
  qed
qed

section \<open>An item that is not settled gets its image, and is settled\<close>

lemma insert_after_step:
  assumes ok: "page_ok d" and ent: "(p # a, s) \<in> set (doc_entries d)"
    and rd: "root d2 = root d"
  shows "insertAfter d2 (eid s) new = Some (insertBeforeNext d2 (eid p) (eid s) new)"
  using parentNode_eq[OF page_ok_parts(4)[OF ok] ent]
  by (simp add: insertAfter_def root_cong(7)[OF rd])

lemma hidden_after_create:
  assumes "createIconImg (hide d i) icon mr = (img, d2)"
  shows "hidden d2 j = (j \<noteq> eid img \<and> (hidden d j \<or> j = i))"
  using hidden_createIconImg[OF assms, of j] createIconImg_facts(3)[OF assms]
  by (auto simp: hidden_hide)

lemma inserted_afterI:
  assumes "(p # a, s) \<in> set (doc_entries d)" "root d2 = root d" "fresh d2 = Suc (fresh d)"
    "eid n = fresh d" "repl_elt n"
    "\<And>j. hidden d2 j = (j \<noteq> eid n \<and> (hidden d j \<or> j = eid s))"
  shows "inserted_after d s (insertBeforeNext d2 (eid p) (eid s) (Element n []))"
  unfolding inserted_after_def using assms by blast

lemma next_repl_has_repl:
  assumes ok: "page_ok d" and ent: "(p # a, s) \<in> set (doc_entries d)"
    and n: "next_is_replacement d (eid s)"
  shows "has_repl d (eid p)"
proof -
  note ud = page_ok_parts(4)[OF ok]
  from n obtain r where r: "nextElementSibling d (eid s) = Some r" "is_replacement r"
    by (auto simp: next_is_replacement_def split: option.splits)
  have e: "(p # a, r) \<in> set (doc_entries d)" using ud ent r(1) by (rule next_entry)
  have "tag r = ''img''"
    using page_ok_parts(2)[OF ok] e r(2) unfolding marked_ok_def repl_elt_def by fastforce
  with has_replI[OF e, of p] r(2) show ?thesis by simp
qed

lemma row_settled_up_tree:
  assumes g: "good d d'" and L: "querySelector d X sel_up_tree = Some L"
    and sv: "querySelector d (eid L) sel_svg_octicon = Some svg"
    and n: "next_is_replacement d' (eid svg)"
  shows "row_settled m d' X"
  using L sv n by (simp add: row_settled_def struct_query(1)[OF goodD(6)[OF g]])

lemma row_settled_normal:
  assumes g: "good d d'" and L: "querySelector d X sel_up_tree = None"
    and c: "classifyRow m d X = Some (svg, icon)"
    and e: "(a, svg) \<in> set (doc_entries d)" "tag svg = ''svg''"
    and cl: "closest d (eid svg) sel_edit_link = None"
    and n: "next_is_replacement d' (eid svg)"
  shows "row_settled m d' X"
proof -
  note st = goodD(6)[OF g]
  have "closest d' (eid svg) sel_edit_link = None"
    using struct_entry(2)[OF st e(1)] e(2) cl by simp
  with L c n show ?thesis
    by (simp add: row_settled_def struct_query(1)[OF st] struct_classifyRow[OF st])
qed

lemma row_settled_edit_link:
  assumes g: "good d d'" and L: "querySelector d X sel_up_tree = None"
    and c: "classifyRow m d X = Some (svg, icon)"
    and e: "(a, svg) \<in> set (doc_entries d)" "tag svg = ''svg''"
    and cl: "closest d (eid svg) sel_edit_link = Some E"
    and n: "has_repl d' (eid E)"
  shows "row_settled m d' X"
proof -
  note st = goodD(6)[OF g]
  have "closest d' (eid svg) sel_edit_link = Some E"
    using struct_entry(2)[OF st e(1)] e(2) cl by simp
  with L c n show ?thesis
    by (simp add: row_settled_def struct_query(1)[OF st] struct_classifyRow[OF st])
qed

lemma replaceParentDir_inserts:
  assumes ok: "page_ok d" and sv: "querySelector d (eid L) sel_svg_octicon = Some svg"
    and n: "\<not> next_is_replacement d (eid svg)" and u: "defaultFolder m = Some u" "u \<noteq> []"
  shows "\<exists>d'. replaceParentDir m L st d = Inr (d', bump st) \<and> good d d'
              \<and> next_is_replacement d' (eid svg) \<and> (paired d \<longrightarrow> paired d')"
proof -
  from query_entry[OF sv] obtain p a where e: "(p # a, svg) \<in> set (doc_entries d)"
    and tsv: "tag svg = ''svg''" by (blast dest: matches_svg_octicon_tag)
  obtain img d2 where cr: "createIconImg (hide d (eid svg)) (JStr u) ''4px'' = (img, d2)"
    by (cases "createIconImg (hide d (eid svg)) (JStr u) ''4px''")
  note cf = createIconImg_facts[OF cr]
  have rd: "root d2 = root d" and fr: "fresh d2 = Suc (fresh d)" and i: "eid img = fresh d"
    using cf by simp_all
  let ?d' = "insertBeforeNext d2 (eid p) (eid svg) (Element img [])"
  have "replaceParentDir m L st d = Inr (?d', bump st)"
    using sv n u cr insert_after_step[OF ok e rd] by (simp add: replaceParentDir_def)
  moreover note insert_after_good(1,2)[OF ok e rd fr i cf(4)]
  moreover have "paired d \<longrightarrow> paired ?d'"
    using paired_insert_after[OF ok _ tsv n inserted_afterI[OF e rd fr i cf(4)]]
      hidden_after_create[OF cr] by blast
  ultimately show ?thesis by blast
qed

lemma replaceNormal_inserts:
  assumes ok: "page_ok d" and e: "(p # a, svg) \<in> set (doc_entries d)"
    and tsv: "tag svg = ''svg''" and n: "\<not> next_is_replacement d (eid svg)"
  shows "\<exists>d'. replaceNormal svg icon st d = Inr (d', bump st) \<and> good d d'
              \<and> next_is_replacement d' (eid svg) \<and> (paired d \<longrightarrow> paired d')"
proof -
  let ?d1 = "hide d (eid svg)"
  obtain img d2 where cr: "createIconImg ?d1 icon (style_get ?d1 (eid svg) ''marginRight'') = (img, d2)"
    by (cases "createIconImg ?d1 icon (style_get ?d1 (eid svg) ''marginRight'')")
  note cf = createIconImg_facts[OF cr]
  let ?d3 = "if style_get d2 (eid svg) ''color'' \<noteq> []
             then style_set d2 (eid img) ''filter'' ''opacity(0.5)'' else d2"
  have rd: "root ?d3 = root d" and fr: "fresh ?d3 = Suc (fresh d)" and i: "eid img = fresh d"
    using cf by simp_all
  let ?d' = "insertBeforeNext ?d3 (eid p) (eid svg) (Element img [])"
  have "replaceNormal svg icon st d = Inr (?d', bump st)"
    using n cr insert_after_step[OF ok e rd] by (simp add: replaceNormal_def)
  moreover note insert_after_good(1,2)[OF ok e rd fr i cf(4)]
  moreover have "paired d \<longrightarrow> paired ?d'"
  proof -
    have "hidden ?d3 j = (j \<noteq> eid img \<and> (hidden d j \<or> j = eid svg))" for j
      using hidden_after_create[OF cr, of j] by (simp add: hidden_style_set)
    from paired_insert_after[OF ok _ tsv n inserted_afterI[OF e rd fr i cf(4) this]]
    show ?thesis by blast
  qed
  ultimately show ?thesis by blast
qed

lemma replaceIconForTreeItem_inserts:
  assumes ok: "page_ok d" and f: "findTreeIcon d T = Some (name, svg)"
    and e: "(p # a, svg) \<in> set (doc_entries d)" and tsv: "tag svg = ''svg''"
    and n: "\<not> has_repl d (eid p)" and t: "truthy (treeIcon m name svg)"
  shows "\<exists>d'. replaceIconForTreeItem m T st d = Inr (d', bump st) \<and> good d d'
              \<and> has_repl d' (eid p) \<and> (paired d \<longrightarrow> paired d')"
proof -
  let ?d1 = "hide d (eid svg)"
  obtain img d2 where cr: "createIconImg ?d1 (treeIcon m name svg) [] = (img, d2)"
    by (cases "createIconImg ?d1 (treeIcon m name svg) []")
  note cf = createIconImg_facts[OF cr]
  have rd: "root d2 = root d" and fr: "fresh d2 = Suc (fresh d)" and i: "eid img = fresh d"
    using cf by simp_all
  let ?d' = "insertBeforeNext d2 (eid p) (eid svg) (Element img [])"
  have pn: "parentNode d (eid svg) = Some p" using page_ok_parts(4)[OF ok] e by (rule parentNode_eq)
  from n have "querySelector d (eid p) sel_replacement_img = None" by (simp add: has_repl_def)
  then have "replaceIconForTreeItem m T st d = Inr (?d', bump st)"
    using f pn t cr by (simp add: replaceIconForTreeItem_def)
  moreover note insert_after_good(1)[OF ok e rd fr i cf(4)]
  moreover have "has_repl ?d' (eid p)"
    by (rule insert_after_good(3)[OF ok e rd fr i cf(4)]) simp
  moreover have "paired d \<longrightarrow> paired ?d'"
  proof -
    have nn: "\<not> next_is_replacement d (eid svg)" using next_repl_has_repl[OF ok e] n by blast
    from paired_insert_after[OF ok _ tsv nn inserted_afterI[OF e rd fr i cf(4)]]
      hidden_after_create[OF cr]
    show ?thesis by blast
  qed
  ultimately show ?thesis by blast
qed

lemma tree_step:
  assumes ok: "page_ok d"
  shows "\<exists>d' st'. replaceIconForTreeItem m T st d = Inr (d', st') \<and> good d d' \<and> tree_settled m d' T
           \<and> (paired d \<longrightarrow> paired d')"
proof (cases "tree_settled m d T")
  case True
  from tree_settled_step[OF ok True, of st] obtain d' where
    "replaceIconForTreeItem m T st d = Inr (d', st)" "good d d'" "paired d \<longrightarrow> paired d'"
    by (blast dest: quiet_good)
  with tree_settled_stable[OF _ True] show ?thesis by blast
next
  case False
  then obtain name svg where f: "findTreeIcon d T = Some (name, svg)"
    by (auto simp: tree_settled_def split: option.splits)
  from findTreeIcon_Some[OF f] obtain p a where
    e: "(p # a, svg) \<in> set (doc_entries d)" "tag svg = ''svg''" by blast
  have pn: "parentNode d (eid svg) = Some p" using page_ok_parts(4)[OF ok] e(1) by (rule parentNode_eq)
  from False f pn have n: "\<not> has_repl d (eid p)" and t: "truthy (treeIcon m name svg)"
    by (simp_all add: tree_settled_def)
  from replaceIconForTreeItem_inserts[OF ok f e n t, of st] obtain d' where
    r: "replaceIconForTreeItem m T st d = Inr (d', bump st)" and g: "good d d'"
    and h: "has_repl d' (eid p)" and pr: "paired d \<longrightarrow> paired d'" by blast
  note stt = goodD(6)[OF g]
  have "parentNode d' (eid svg) = Some p" using struct_entry(3)[OF stt e(1)] e(2) pn by simp
  with f h have "tree_settled m d' T" by (simp add: tree_settled_def struct_findTreeIcon[OF stt])
  with r g pr show ?thesis by blast
qed

lemma matches_not_pencil:
  "matches sel_file_svg_not_pencil a e \<longleftrightarrow>
   matches sel_file_svg a e \<and> \<not> has_class e ''octicon-pencil''"
  by (simp add: matches_def sel_file_svg_not_pencil_def sel_file_svg_def has_class_def)

lemma rgh_cleanup:
  assumes ok: "page_ok d" and E: "(ys, E) \<in> set (doc_entries d)" and tg: "tag E = ''a''"
  defines "d1 \<equiv> (case nextElementSibling d (eid E) of
                    None \<Rightarrow> d
                  | Some siblingIcon \<Rightarrow>
                      if is_replacement siblingIcon then remove d (eid siblingIcon) else d)"
  shows "page_ok d1" and "similar d d1" and "keeps_next d d1" and "fresh d1 = fresh d"
    and "(ys, E) \<in> set (doc_entries d1)"
    and "\<forall>x \<in> set (doc_entries d). x \<in> set (doc_entries d1) \<or> fst x = ys"
proof -
  note ud = page_ok_parts(4)[OF ok]
  have "page_ok d1 \<and> similar d d1 \<and> keeps_next d d1 \<and> fresh d1 = fresh d
        \<and> (ys, E) \<in> set (doc_entries d1)
        \<and> (\<forall>x \<in> set (doc_entries d). x \<in> set (doc_entries d1) \<or> fst x = ys)"
  proof (cases "nextElementSibling d (eid E)")
    case None
    then have "d1 = d" by (simp add: d1_def)
    with ok E show ?thesis by (simp add: keeps_next_def)
  next
    case (Some r)
    show ?thesis
    proof (cases "is_replacement r")
      case False
      with Some have "d1 = d" by (simp add: d1_def)
      with ok E show ?thesis by (simp add: keeps_next_def)
    next
      case True
      with Some have d1: "d1 = remove d (eid r)" by (simp add: d1_def)
      obtain p a where c: "ys = p # a"
      proof (cases ys)
        case Nil
        with no_parent_no_sibling(2)[OF ud] E Some show ?thesis by simp
      next
        case (Cons p a)
        then show ?thesis by (rule that)
      qed
      have ent: "(p # a, E) \<in> set (doc_entries d)" using E c by simp
      note rg = remove_good[OF ok ent tg Some True, folded d1]
      have Er: "E \<noteq> r"
        using svg_not_replacement[OF page_ok_parts(2)[OF ok] ent] tg True by auto
      have "(ys, E) \<in> set (doc_entries d1)" using ent rg(6) Er c by simp
      moreover have "\<forall>x \<in> set (doc_entries d). x \<in> set (doc_entries d1) \<or> fst x = ys"
        using rg(6) c by auto
      ultimately show ?thesis using rg(1-4) by simp
    qed
  qed
  then show "page_ok d1" and "similar d d1" and "keeps_next d d1" and "fresh d1 = fresh d"
    and "(ys, E) \<in> set (doc_entries d1)"
    and "\<forall>x \<in> set (doc_entries d). x \<in> set (doc_entries d1) \<or> fst x = ys"
    by simp_all
qed

lemma struct_of_page_ok:
  "page_ok d \<Longrightarrow> page_ok d' \<Longrightarrow> similar d d' \<Longrightarrow> struct d d'"
  by (simp add: struct_def page_ok_parts)

lemma replaceInEditLink_inserts:
  assumes ok: "page_ok d" and e: "(p # a, svg) \<in> set (doc_entries d)"
    and ms: "matches sel_file_svg (p # a) svg"
    and cl: "closest d (eid svg) sel_edit_link = Some E"
    and n: "\<not> has_repl d (eid E)"
  shows "\<exists>d'. replaceInEditLink E icon st d = Inr (d', bump st) \<and> good d d'
              \<and> has_repl d' (eid E) \<and> (paired d \<longrightarrow> paired d')"
proof -
  note ud = page_ok_parts(4)[OF ok]
  have tsv: "tag svg = ''svg''" using ms by (rule matches_file_svg_tag)
  from closest_edit_link[OF ud e tsv cl] obtain ys where
    E: "(ys, E) \<in> set (doc_entries d)" "E \<in> set (p # a)" and tg: "tag E = ''a''"
    and el: "is_edit_link E" by blast
  define d1 where "d1 = (case nextElementSibling d (eid E) of
                    None \<Rightarrow> d
                  | Some siblingIcon \<Rightarrow>
                      if is_replacement siblingIcon then remove d (eid siblingIcon) else d)"
  note cu = rgh_cleanup[OF ok E(1) tg, folded d1_def]
  note st1 = struct_of_page_ok[OF ok cu(1,2)]
  have np: "\<not> has_class svg ''octicon-pencil''"
    using page_ok_parts(3)[OF ok] e ms unfolding pencil_ok_def by fastforce
  have "querySelector d (eid E) sel_file_svg_not_pencil \<noteq> None"
  proof
    assume "querySelector d (eid E) sel_file_svg_not_pencil = None"
    then have "\<forall>x \<in> set (doc_entries d). eid E \<in> eid ` set (fst x) \<longrightarrow>
                 \<not> matches sel_file_svg_not_pencil (fst x) (snd x)"
      by (simp add: querySelector_None)
    from bspec[OF this e] ms np have "eid E \<notin> eid ` set (p # a)"
      by (simp add: matches_not_pencil)
    with E(2) show False by blast
  qed
  then obtain f where f: "querySelector d1 (eid E) sel_file_svg_not_pencil = Some f"
    using struct_query(1)[OF st1 rejects_repl_sels(9), of "eid E"] by auto
  let ?d2 = "hide d1 (eid f)"
  obtain img d3 where cr: "createIconImg ?d2 icon [] = (img, d3)"
    by (cases "createIconImg ?d2 icon []")
  note cf = createIconImg_facts[OF cr]
  have rd: "root d3 = root d1" and fr: "fresh d3 = Suc (fresh d1)" and i: "eid img = fresh d1"
    using cf by simp_all
  let ?d' = "insertFirst d3 (eid E) (Element img [])"
  have En: "\<not> is_replacement E"
    using svg_not_replacement[OF page_ok_parts(2)[OF ok] E(1)] tg by simp
  note pg = prepend_good[OF cu(1) cu(5) En rd fr i cf(4)]
  from n have "querySelector d (eid E) sel_replacement_img = None" by (simp add: has_repl_def)
  then have res: "replaceInEditLink E icon st d = Inr (?d', bump st)"
    using f cr unfolding replaceInEditLink_def d1_def[symmetric] by simp
  have sim: "similar d ?d'" using cu(2) pg(2) by (rule similar_trans)
  have kn: "keeps_next d ?d'"
    using page_ok_parts(2)[OF ok] cu(2) cu(3) pg(3) by (rule keeps_next_trans)
  have kr: "keeps_repl d ?d'"
    unfolding keeps_repl_def
  proof (intro allI impI)
    fix E0 assume "has_repl d E0"
    then obtain c0 w0 where w0: "(c0, w0) \<in> set (doc_entries d)" "E0 \<in> eid ` set c0"
      "tag w0 = ''img''" "is_replacement w0" by (rule has_repl_witness)
    from cu(6) w0(1) have "(c0, w0) \<in> set (doc_entries d1) \<or> c0 = ys" by fastforce
    then show "has_repl ?d' E0"
    proof
      assume "(c0, w0) \<in> set (doc_entries d1)"
      then have "(c0, w0) \<in> set (doc_entries ?d')" using pg(4) by simp
      then show ?thesis using w0(2,3,4) by (rule has_replI2)
    next
      assume "c0 = ys"
      with w0(2) obtain q where "q \<in> set (E # ys)" "eid q = E0" by auto
      with pg(5)[of q] show ?thesis by auto
    qed
  qed
  have "good d ?d'" using ok pg(1) sim kn kr by (simp add: good_def)
  moreover have "has_repl ?d' (eid E)" by (rule pg(5)) simp
  moreover have "paired d \<longrightarrow> paired ?d'"
  proof
    assume pr: "paired d"
    have d1: "d1 = d" using paired_no_marked_sibling(2)[OF ok pr E(1) tg] by (simp add: d1_def)
    from query_entry[OF f] obtain q b where
      fe: "(q # b, f) \<in> set (doc_entries d1)" "matches sel_file_svg_not_pencil (q # b) f"
        "eid E \<in> eid ` set (q # b)" by blast
    have tf: "tag f = ''svg''" using fe(2) by (auto simp: matches_not_pencil dest: matches_file_svg_tag)
    have Ein: "E \<in> set (q # b)"
      using ancestor_chain(2)[OF ud fe(1)[unfolded d1] E(1) fe(3)] .
    have hd3: "hidden d3 j = (j \<noteq> eid img \<and> (hidden d j \<or> j = eid f))" for j
      using hidden_after_create[OF cr, of j] by (simp add: d1)
    have "prepended d E f ?d'"
      unfolding prepended_def
      using rd fr i cf(4) hd3 by (intro exI[of _ d3] exI[of _ img]) (simp add: d1)
    from paired_prepend[OF ok pr E(1) el n fe(1)[unfolded d1] Ein tf this] show "paired ?d'" .
  qed
  ultimately show ?thesis using res by blast
qed

lemma row_step:
  assumes ok: "page_ok d"
  shows "\<exists>d' st'. replaceIconForItem m X st d = Inr (d', st') \<and> good d d' \<and> row_settled m d' X
           \<and> (paired d \<longrightarrow> paired d')"
proof (cases "row_settled m d X")
  case True
  from row_settled_step[OF ok True, of st] obtain d' where
    "replaceIconForItem m X st d = Inr (d', st)" "good d d'" "paired d \<longrightarrow> paired d'"
    by (blast dest: quiet_good)
  with row_settled_stable[OF _ True] show ?thesis by blast
next
  case ns: False
  show ?thesis
  proof (cases "querySelector d X sel_up_tree")
    case (Some L)
    with ns obtain svg u where sv: "querySelector d (eid L) sel_svg_octicon = Some svg"
      and n: "\<not> next_is_replacement d (eid svg)" and u: "defaultFolder m = Some u" "u \<noteq> []"
      by (auto simp: row_settled_def split: option.splits)
    from replaceParentDir_inserts[OF ok sv n u, of st] obtain d' where
      r: "replaceParentDir m L st d = Inr (d', bump st)" and g: "good d d'"
      and h: "next_is_replacement d' (eid svg)" and pr: "paired d \<longrightarrow> paired d'" by blast
    from r Some have "replaceIconForItem m X st d = Inr (d', bump st)"
      by (simp add: replaceIconForItem_def)
    with g pr row_settled_up_tree[OF g Some sv h] show ?thesis by blast
  next
    case None
    with ns obtain svg icon where c: "classifyRow m d X = Some (svg, icon)"
      by (auto simp: row_settled_def split: option.splits)
    from classifyRow_Some(1)[OF c] obtain p a where
      e: "(p # a, svg) \<in> set (doc_entries d)" and ms: "matches sel_file_svg (p # a) svg" by blast
    have tsv: "tag svg = ''svg''" using ms by (rule matches_file_svg_tag)
    show ?thesis
    proof (cases "closest d (eid svg) sel_edit_link")
      case cn: None
      with ns None c have n: "\<not> next_is_replacement d (eid svg)" by (simp add: row_settled_def)
      from replaceNormal_inserts[OF ok e tsv n, of icon st] obtain d' where
        r: "replaceNormal svg icon st d = Inr (d', bump st)" and g: "good d d'"
        and h: "next_is_replacement d' (eid svg)" and pr: "paired d \<longrightarrow> paired d'" by blast
      from r None c cn have "replaceIconForItem m X st d = Inr (d', bump st)"
        by (simp add: replaceIconForItem_def)
      with g pr row_settled_normal[OF g None c e tsv cn h] show ?thesis by blast
    next
      case cs: (Some E)
      with ns None c have n: "\<not> has_repl d (eid E)" by (simp add: row_settled_def)
      from replaceInEditLink_inserts[OF ok e ms cs n, of icon st] obtain d' where
        r: "replaceInEditLink E icon st d = Inr (d', bump st)" and g: "good d d'"
        and h: "has_repl d' (eid E)" and pr: "paired d \<longrightarrow> paired d'" by blast
      from r None c cs have "replaceIconForItem m X st d = Inr (d', bump st)"
        by (simp add: replaceIconForItem_def)
      with g pr row_settled_edit_link[OF g None c e tsv cs h] show ?thesis by blast
    qed
  qed
qed

section \<open>A whole pass\<close>

lemma forEach_settles:
  assumes step: "\<And>d X st. page_ok d \<Longrightarrow>
                   \<exists>d' st'. f X st d = Inr (d', st') \<and> good d d' \<and> S d' X"
    and stable: "\<And>d d' X. good d d' \<Longrightarrow> S d X \<Longrightarrow> S d' X"
    and ok: "page_ok d"
  shows "\<exists>d' st'. forEach f xs st d = Inr (d', st') \<and> good d d' \<and> (\<forall>X \<in> set xs. S d' X)"
  using ok
proof (induction xs arbitrary: d st)
  case Nil
  then show ?case by (simp add: good_refl)
next
  case (Cons X xs)
  from step[OF Cons.prems, of X st] obtain d1 st1 where
    s1: "f X st d = Inr (d1, st1)" "good d d1" "S d1 X" by blast
  from Cons.IH[OF goodD(2)[OF s1(2)], of st1] obtain d' st' where
    s2: "forEach f xs st1 d1 = Inr (d', st')" "good d1 d'" "\<forall>X \<in> set xs. S d' X" by blast
  have "forEach f (X # xs) st d = Inr (d', st')" using s1(1) s2(1) by simp
  moreover have "good d d'" using s1(2) s2(2) by (rule good_trans)
  moreover have "S d' X" using s2(2) s1(3) by (rule stable)
  ultimately show ?case using s2(3) by auto
qed

lemma forEach_idle:
  assumes idle: "\<And>d X st. page_ok d \<Longrightarrow> S d X \<Longrightarrow> \<exists>d'. f X st d = Inr (d', st) \<and> quiet d d'"
    and stable: "\<And>d d' X. good d d' \<Longrightarrow> S d X \<Longrightarrow> S d' X"
    and ok: "page_ok d" and all: "\<forall>X \<in> set xs. S d X"
  shows "\<exists>d'. forEach f xs st d = Inr (d', st) \<and> quiet d d'"
  using ok all
proof (induction xs arbitrary: d)
  case Nil
  then show ?case by (simp add: quiet_refl)
next
  case (Cons X xs)
  from Cons.prems(2) have SX: "S d X" by simp
  from idle[OF Cons.prems(1) SX, of st] obtain d1 where
    s1: "f X st d = Inr (d1, st)" "quiet d d1" by blast
  note g1 = quiet_good[OF s1(2)]
  have "\<forall>Y \<in> set xs. S d1 Y" using Cons.prems(2) stable[OF g1] by simp
  from Cons.IH[OF goodD(2)[OF g1] this] obtain d' where
    s2: "forEach f xs st d1 = Inr (d', st)" "quiet d1 d'" by blast
  have "forEach f (X # xs) st d = Inr (d', st)" using s1(1) s2(1) by simp
  moreover have "quiet d d'" using s1(2) s2(2) by (rule quiet_trans)
  ultimately show ?case by blast
qed

lemma replaceIcons_alt:
  "replaceIcons m d =
     (case forEach (replaceIconForItem m) (row_items d) (Some 0) d of
        Inl err \<Rightarrow> Inl err
      | Inr (d1, stats1) \<Rightarrow> forEach (replaceIconForTreeItem m) (tree_items d1) stats1 d1)"
  unfolding replaceIcons_def row_items_def tree_items_def Let_def by (rule refl)

lemma struct_items:
  assumes "struct d d'"
  shows "row_items d' = row_items d" "tree_items d' = tree_items d"
  unfolding row_items_def tree_items_def struct_query(2)[OF assms rejects_repl_sels(12)]
    struct_query(2)[OF assms rejects_repl_sels(13)] struct_query(2)[OF assms rejects_repl_sels(14)]
  by (rule refl)+

lemma replaceIcons_settles:
  assumes ok: "page_ok d"
  shows "\<exists>d' st'. replaceIcons m d = Inr (d', st') \<and> good d d' \<and> settled m d'"
proof -
  have "\<exists>d' st'. forEach (replaceIconForItem m) (row_items d) (Some 0) d = Inr (d', st')
          \<and> good d d' \<and> (\<forall>X \<in> set (row_items d). row_settled m d' X)"
  proof (rule forEach_settles[where f="replaceIconForItem m" and S="row_settled m"])
    show "\<And>d X st. page_ok d \<Longrightarrow>
            \<exists>d' st'. replaceIconForItem m X st d = Inr (d', st') \<and> good d d' \<and> row_settled m d' X"
      using row_step by blast
    show "\<And>d d' X. good d d' \<Longrightarrow> row_settled m d X \<Longrightarrow> row_settled m d' X"
      by (rule row_settled_stable)
    show "page_ok d" by (rule ok)
  qed
  then obtain d1 st1 where
    r: "forEach (replaceIconForItem m) (row_items d) (Some 0) d = Inr (d1, st1)"
    and g1: "good d d1" and s1: "\<forall>X \<in> set (row_items d). row_settled m d1 X" by blast
  have "\<exists>d' st'. forEach (replaceIconForTreeItem m) (tree_items d1) st1 d1 = Inr (d', st')
          \<and> good d1 d' \<and> (\<forall>T \<in> set (tree_items d1). tree_settled m d' T)"
  proof (rule forEach_settles[where f="replaceIconForTreeItem m" and S="tree_settled m"])
    show "\<And>d X st. page_ok d \<Longrightarrow>
            \<exists>d' st'. replaceIconForTreeItem m X st d = Inr (d', st') \<and> good d d' \<and> tree_settled m d' X"
      using tree_step by blast
    show "\<And>d d' X. good d d' \<Longrightarrow> tree_settled m d X \<Longrightarrow> tree_settled m d' X"
      by (rule tree_settled_stable)
    show "page_ok d1" by (rule goodD(2)[OF g1])
  qed
  then obtain d' st' where
    t: "forEach (replaceIconForTreeItem m) (tree_items d1) st1 d1 = Inr (d', st')"
    and g2: "good d1 d'" and s2: "\<forall>T \<in> set (tree_items d1). tree_settled m d' T" by blast
  have res: "replaceIcons m d = Inr (d', st')" using r t by (simp add: replaceIcons_alt)
  have g: "good d d'" using g1 g2 by (rule good_trans)
  have "\<forall>X \<in> set (row_items d'). row_settled m d' X"
    using s1 row_settled_stable[OF g2] by (simp add: struct_items[OF goodD(6)[OF g]])
  moreover have "\<forall>T \<in> set (tree_items d'). tree_settled m d' T"
    using s2 by (simp add: struct_items[OF goodD(6)[OF g2]])
  ultimately have "settled m d'" using goodD(2)[OF g] by (simp add: settled_def)
  with res g show ?thesis by blast
qed

lemma replaceIcons_idle:
  assumes s: "settled m d"
  shows "\<exists>d'. replaceIcons m d = Inr (d', Some 0) \<and> quiet d d' \<and> settled m d'"
proof -
  from s have ok: "page_ok d" and rs: "\<forall>X \<in> set (row_items d). row_settled m d X"
    and ts: "\<forall>T \<in> set (tree_items d). tree_settled m d T" by (simp_all add: settled_def)
  have "\<exists>d'. forEach (replaceIconForItem m) (row_items d) (Some 0) d = Inr (d', Some 0) \<and> quiet d d'"
  proof (rule forEach_idle[where f="replaceIconForItem m" and S="row_settled m"])
    show "\<And>d X st. page_ok d \<Longrightarrow> row_settled m d X \<Longrightarrow>
            \<exists>d'. replaceIconForItem m X st d = Inr (d', st) \<and> quiet d d'"
      using row_settled_step by blast
    show "\<And>d d' X. good d d' \<Longrightarrow> row_settled m d X \<Longrightarrow> row_settled m d' X"
      by (rule row_settled_stable)
    show "page_ok d" by (rule ok)
    show "\<forall>X \<in> set (row_items d). row_settled m d X" by (rule rs)
  qed
  then obtain d1 where r: "forEach (replaceIconForItem m) (row_items d) (Some 0) d = Inr (d1, Some 0)"
    and q1: "quiet d d1" by blast
  note g1 = quiet_good[OF q1]
  have ts1: "\<forall>T \<in> set (tree_items d1). tree_settled m d1 T"
    using ts tree_settled_stable[OF g1] by (simp add: struct_items[OF goodD(6)[OF g1]])
  have "\<exists>d'. forEach (replaceIconForTreeItem m) (tree_items d1) (Some 0) d1 = Inr (d', Some 0)
          \<and> quiet d1 d'"
  proof (rule forEach_idle[where f="replaceIconForTreeItem m" and S="tree_settled m"])
    show "\<And>d X st. page_ok d \<Longrightarrow> tree_settled m d X \<Longrightarrow>
            \<exists>d'. replaceIconForTreeItem m X st d = Inr (d', st) \<and> quiet d d'"
      using tree_settled_step by blast
    show "\<And>d d' X. good d d' \<Longrightarrow> tree_settled m d X \<Longrightarrow> tree_settled m d' X"
      by (rule tree_settled_stable)
    show "page_ok d1" by (rule goodD(2)[OF g1])
    show "\<forall>T \<in> set (tree_items d1). tree_settled m d1 T" by (rule ts1)
  qed
  then obtain d' where t: "forEach (replaceIconForTreeItem m) (tree_items d1) (Some 0) d1 = Inr (d', Some 0)"
    and q2: "quiet d1 d'" by blast
  note g2 = quiet_good[OF q2]
  have res: "replaceIcons m d = Inr (d', Some 0)" using r t by (simp add: replaceIcons_alt)
  have q: "quiet d d'" using q1 q2 by (rule quiet_trans)
  note g = quiet_good[OF q]
  have "\<forall>X \<in> set (row_items d'). row_settled m d' X"
    using rs row_settled_stable[OF g] by (simp add: struct_items[OF goodD(6)[OF g]])
  moreover have "\<forall>T \<in> set (tree_items d'). tree_settled m d' T"
    using ts1 tree_settled_stable[OF g2] by (simp add: struct_items[OF goodD(6)[OF g2]])
  ultimately have "settled m d'" using goodD(2)[OF g] by (simp add: settled_def)
  with res q show ?thesis by blast
qed

section \<open>Any sequence of steps\<close>






section \<open>Two passes in succession\<close>

text \<open>
  C4.  On a well-formed page (unique element identities; the marker class only on images
  as the engine makes them; no file icon with the class of the pencil icon) a full pass of
  \<^verbatim>\<open>replaceIcons\<close> ends without an exception, and a second pass on the document the first
  one left ends without an exception too, with \<^verbatim>\<open>stats.replaced\<close> at 0, without creating
  an image (the next fresh identity is as before) and without a new element in the
  document: every element after the second pass, with its ancestors, was there before it.
\<close>

theorem replaceIcons_idempotent:
  assumes "page_ok d0"
  shows "\<exists>d1 s1 d2. replaceIcons m d0 = Inr (d1, s1) \<and> replaceIcons m d1 = Inr (d2, Some 0)
           \<and> fresh d2 = fresh d1 \<and> set (doc_entries d2) \<subseteq> set (doc_entries d1)"
proof -
  from replaceIcons_settles[OF assms, of m] obtain d1 s1 where
    a: "replaceIcons m d0 = Inr (d1, s1)" "settled m d1" by blast
  from replaceIcons_idle[OF a(2)] obtain d2 where
    b: "replaceIcons m d1 = Inr (d2, Some 0)" "quiet d1 d2" by blast
  from a(1) b show ?thesis by (auto simp: quiet_def)
qed

theorem replaceIcons_idempotent_witness:
  "page_ok page_dom \<and>
   (\<exists>d1 s1 d2. replaceIcons m_ex page_dom = Inr (d1, s1)
      \<and> replaceIcons m_ex d1 = Inr (d2, Some 0)
      \<and> fresh d2 = fresh d1 \<and> set (doc_entries d2) \<subseteq> set (doc_entries d1))"
proof -
  have h: "page_ok page_dom" by code_simp
  show ?thesis using h replaceIcons_idempotent[OF h, of m_ex] by simp
qed

section \<open>Candidates the scan cannot read\<close>

lemma replaceIconForItem_malformed:
  assumes "malformed_item d item"
  shows "replaceIconForItem m item stats d = Inr (d, stats)"
proof (cases "querySelector d item sel_up_tree")
  case None
  with assms have "malformed_row d item" by (simp add: malformed_item_def)
  with None show ?thesis by (simp add: replaceIconForItem_def classifyRow_malformed)
next
  case (Some parentDirLink)
  with assms have "querySelector d (eid parentDirLink) sel_svg_octicon = None"
    by (simp add: malformed_item_def)
  with Some show ?thesis by (simp add: replaceIconForItem_def replaceParentDir_def)
qed

lemma replaceIconForTreeItem_malformed:
  assumes "malformed_tree_item d item"
  shows "replaceIconForTreeItem m item stats d = Inr (d, stats)"
proof -
  have "findTreeIcon d item = None"
    using assms
    by (auto simp: malformed_tree_item_def findTreeIcon_def Let_def split: option.splits)
  then show ?thesis by (simp add: replaceIconForTreeItem_def)
qed

lemma forEach_append:
  "forEach f (xs @ ys) stats d =
     (case forEach f xs stats d of
        Inl err \<Rightarrow> Inl err
      | Inr (d', stats') \<Rightarrow> forEach f ys stats' d')"
proof (induction xs arbitrary: stats d)
  case Nil
  show ?case by simp
next
  case (Cons x xs)
  show ?case
  proof (cases "f x stats d")
    case (Inl err)
    then show ?thesis by simp
  next
    case (Inr r)
    obtain d1 s1 where "r = (d1, s1)" by (cases r)
    with Inr Cons[of s1 d1] show ?thesis by simp
  qed
qed

lemma struct_malformed_row:
  assumes "struct d d'"
  shows "malformed_row d' X = malformed_row d X"
  unfolding malformed_row_def struct_findTargetCell[OF assms]
    struct_query(1)[OF assms rejects_repl_sels(5)] struct_query(1)[OF assms rejects_repl_sels(6)]
    struct_query(1)[OF assms rejects_repl_sels(7)]
  by (rule refl)

lemma struct_malformed_item:
  assumes "struct d d'"
  shows "malformed_item d' X = malformed_item d X"
  unfolding malformed_item_def struct_malformed_row[OF assms]
    struct_query(1)[OF assms rejects_repl_sels(1)] struct_query(1)[OF assms rejects_repl_sels(2)]
  by (rule refl)

lemma struct_malformed_tree_item:
  assumes "struct d d'"
  shows "malformed_tree_item d' X = malformed_tree_item d X"
  unfolding malformed_tree_item_def
    struct_query(1)[OF assms rejects_repl_sels(10)] struct_query(1)[OF assms rejects_repl_sels(11)]
    struct_query(1)[OF assms rejects_repl_sels(2)]
  by (rule refl)

lemma forEach_rows_good:
  assumes "page_ok d"
  shows "\<exists>d' st'. forEach (replaceIconForItem m) xs st d = Inr (d', st') \<and> good d d'"
proof -
  have "\<exists>d' st'. forEach (replaceIconForItem m) xs st d = Inr (d', st')
          \<and> good d d' \<and> (\<forall>X \<in> set xs. row_settled m d' X)"
  proof (rule forEach_settles[where f="replaceIconForItem m" and S="row_settled m"])
    show "\<And>d X st. page_ok d \<Longrightarrow>
            \<exists>d' st'. replaceIconForItem m X st d = Inr (d', st') \<and> good d d' \<and> row_settled m d' X"
      using row_step by blast
    show "\<And>d d' X. good d d' \<Longrightarrow> row_settled m d X \<Longrightarrow> row_settled m d' X"
      by (rule row_settled_stable)
    show "page_ok d" by (rule assms)
  qed
  then show ?thesis by blast
qed

lemma forEach_trees_good:
  assumes "page_ok d"
  shows "\<exists>d' st'. forEach (replaceIconForTreeItem m) xs st d = Inr (d', st') \<and> good d d'"
proof -
  have "\<exists>d' st'. forEach (replaceIconForTreeItem m) xs st d = Inr (d', st')
          \<and> good d d' \<and> (\<forall>X \<in> set xs. tree_settled m d' X)"
  proof (rule forEach_settles[where f="replaceIconForTreeItem m" and S="tree_settled m"])
    show "\<And>d X st. page_ok d \<Longrightarrow>
            \<exists>d' st'. replaceIconForTreeItem m X st d = Inr (d', st') \<and> good d d' \<and> tree_settled m d' X"
      using tree_step by blast
    show "\<And>d d' X. good d d' \<Longrightarrow> tree_settled m d X \<Longrightarrow> tree_settled m d' X"
      by (rule tree_settled_stable)
    show "page_ok d" by (rule assms)
  qed
  then show ?thesis by blast
qed

lemma forEach_skip_row:
  assumes "page_ok d" "malformed_item d item"
  shows "forEach (replaceIconForItem m) (before @ item # rest) stats d
           = forEach (replaceIconForItem m) (before @ rest) stats d"
proof -
  from forEach_rows_good[OF assms(1), of m before stats] obtain d1 s1 where
    r: "forEach (replaceIconForItem m) before stats d = Inr (d1, s1)" and g: "good d d1" by blast
  have "malformed_item d1 item" using assms(2) struct_malformed_item[OF goodD(6)[OF g]] by simp
  then have "replaceIconForItem m item s1 d1 = Inr (d1, s1)" by (rule replaceIconForItem_malformed)
  then show ?thesis by (simp add: forEach_append r)
qed

lemma forEach_skip_tree:
  assumes "page_ok d" "malformed_tree_item d item"
  shows "forEach (replaceIconForTreeItem m) (before @ item # rest) stats d
           = forEach (replaceIconForTreeItem m) (before @ rest) stats d"
proof -
  from forEach_trees_good[OF assms(1), of m before stats] obtain d1 s1 where
    r: "forEach (replaceIconForTreeItem m) before stats d = Inr (d1, s1)" and g: "good d d1" by blast
  have "malformed_tree_item d1 item"
    using assms(2) struct_malformed_tree_item[OF goodD(6)[OF g]] by simp
  then have "replaceIconForTreeItem m item s1 d1 = Inr (d1, s1)"
    by (rule replaceIconForTreeItem_malformed)
  then show ?thesis by (simp add: forEach_append r)
qed

text \<open>
  C7.  A candidate in which the scan cannot find an element it looks for is left as it
  is, with the whole document and the counter, and no exception is raised: a row without
  its target cell, name link, filename column or icon (for the parent directory row: the
  icon inside its link), and an item of the tree view without the span of its name, the
  container of its icon or the icon.  The loop over the batch goes on: the candidate
  after it is processed on the unchanged document and then the rest, and on a
  well-formed page the batch with such a candidate anywhere in it ends as the batch
  without it does.
\<close>

theorem scan_skips_malformed:
  "(malformed_item d item \<longrightarrow>
      replaceIconForItem m item stats d = Inr (d, stats)
      \<and> forEach (replaceIconForItem m) (item # next # rest) stats d
          = (case replaceIconForItem m next stats d of
               Inl err \<Rightarrow> Inl err
             | Inr (d', stats') \<Rightarrow> forEach (replaceIconForItem m) rest stats' d')
      \<and> (page_ok d \<longrightarrow>
            forEach (replaceIconForItem m) (before @ item # rest) stats d
              = forEach (replaceIconForItem m) (before @ rest) stats d))
   \<and> (malformed_tree_item d item \<longrightarrow>
      replaceIconForTreeItem m item stats d = Inr (d, stats)
      \<and> forEach (replaceIconForTreeItem m) (item # next # rest) stats d
          = (case replaceIconForTreeItem m next stats d of
               Inl err \<Rightarrow> Inl err
             | Inr (d', stats') \<Rightarrow> forEach (replaceIconForTreeItem m) rest stats' d')
      \<and> (page_ok d \<longrightarrow>
            forEach (replaceIconForTreeItem m) (before @ item # rest) stats d
              = forEach (replaceIconForTreeItem m) (before @ rest) stats d))"
  using replaceIconForItem_malformed[of d item m stats]
    replaceIconForTreeItem_malformed[of d item m stats]
    forEach_skip_row[of d item m before rest stats] forEach_skip_tree[of d item m before rest stats]
  by simp

theorem scan_skips_malformed_witness:
  "malformed_item page_dom 20 \<and> malformed_tree_item sidebar_dom 41
   \<and> page_ok page_dom \<and> page_ok sidebar_dom
   \<and> replaceIconForItem m_ex 20 (Some 0) page_dom = Inr (page_dom, Some 0)
   \<and> forEach (replaceIconForItem m_ex) [20, 10] (Some 0) page_dom
       = (case replaceIconForItem m_ex 10 (Some 0) page_dom of
            Inl err \<Rightarrow> Inl err
          | Inr (d', stats') \<Rightarrow> forEach (replaceIconForItem m_ex) [] stats' d')
   \<and> forEach (replaceIconForItem m_ex) [3, 20, 10] (Some 0) page_dom
       = forEach (replaceIconForItem m_ex) [3, 10] (Some 0) page_dom
   \<and> (case forEach (replaceIconForItem m_ex) [3, 20, 10] (Some 0) page_dom of
         Inl err \<Rightarrow> False
       | Inr (d', stats') \<Rightarrow>
           stats' = Some 2
           \<and> map eid (querySelectorAll d' 3 sel_replacement_img) = [100]
           \<and> map eid (querySelectorAll d' 10 sel_replacement_img) = [101]
           \<and> filter (\<lambda>x. 20 \<in> eid ` set (fst x)) (doc_entries d')
               = filter (\<lambda>x. 20 \<in> eid ` set (fst x)) (doc_entries page_dom))
   \<and> replaceIconForTreeItem m_ex 41 (Some 0) sidebar_dom = Inr (sidebar_dom, Some 0)
   \<and> forEach (replaceIconForTreeItem m_ex) [41, 51] (Some 0) sidebar_dom
       = (case replaceIconForTreeItem m_ex 51 (Some 0) sidebar_dom of
            Inl err \<Rightarrow> Inl err
          | Inr (d', stats') \<Rightarrow> forEach (replaceIconForTreeItem m_ex) [] stats' d')
   \<and> (case forEach (replaceIconForTreeItem m_ex) [41, 51] (Some 0) sidebar_dom of
         Inl err \<Rightarrow> False
       | Inr (d', stats') \<Rightarrow>
           stats' = Some 1
           \<and> map eid (querySelectorAll d' 51 sel_replacement_img) = [100]
           \<and> querySelectorAll d' 41 sel_replacement_img = [])"
proof -
  have h1: "malformed_item page_dom 20" by code_simp
  have h2: "malformed_tree_item sidebar_dom 41" by code_simp
  have h3: "page_ok page_dom" by code_simp
  have h4: "page_ok sidebar_dom" by code_simp
  have c1: "(case forEach (replaceIconForItem m_ex) [3, 20, 10] (Some 0) page_dom of
         Inl err \<Rightarrow> False
       | Inr (d', stats') \<Rightarrow>
           stats' = Some 2
           \<and> map eid (querySelectorAll d' 3 sel_replacement_img) = [100]
           \<and> map eid (querySelectorAll d' 10 sel_replacement_img) = [101]
           \<and> filter (\<lambda>x. 20 \<in> eid ` set (fst x)) (doc_entries d')
               = filter (\<lambda>x. 20 \<in> eid ` set (fst x)) (doc_entries page_dom))"
    by code_simp
  have c2: "(case forEach (replaceIconForTreeItem m_ex) [41, 51] (Some 0) sidebar_dom of
         Inl err \<Rightarrow> False
       | Inr (d', stats') \<Rightarrow>
           stats' = Some 1
           \<and> map eid (querySelectorAll d' 51 sel_replacement_img) = [100]
           \<and> querySelectorAll d' 41 sel_replacement_img = [])"
    by code_simp
  have ap: "[3] @ 20 # [10] = [3, 20, 10::nat]" "[3] @ [10] = [3, 10::nat]" by simp_all
  from scan_skips_malformed[of page_dom 20 m_ex "Some 0" 10 "[]" "[]"] h1
  have r: "replaceIconForItem m_ex 20 (Some 0) page_dom = Inr (page_dom, Some 0)"
    "forEach (replaceIconForItem m_ex) [20, 10] (Some 0) page_dom
       = (case replaceIconForItem m_ex 10 (Some 0) page_dom of
            Inl err \<Rightarrow> Inl err
          | Inr (d', stats') \<Rightarrow> forEach (replaceIconForItem m_ex) [] stats' d')"
    by blast+
  from scan_skips_malformed[of page_dom 20 m_ex "Some 0" 10 "[10]" "[3]", unfolded ap] h1 h3
  have r3: "forEach (replaceIconForItem m_ex) [3, 20, 10] (Some 0) page_dom
       = forEach (replaceIconForItem m_ex) [3, 10] (Some 0) page_dom"
    by blast
  from scan_skips_malformed[of sidebar_dom 41 m_ex "Some 0" 51 "[]" "[]"] h2
  have t: "replaceIconForTreeItem m_ex 41 (Some 0) sidebar_dom = Inr (sidebar_dom, Some 0)"
    "forEach (replaceIconForTreeItem m_ex) [41, 51] (Some 0) sidebar_dom
       = (case replaceIconForTreeItem m_ex 51 (Some 0) sidebar_dom of
            Inl err \<Rightarrow> Inl err
          | Inr (d', stats') \<Rightarrow> forEach (replaceIconForTreeItem m_ex) [] stats' d')"
    by blast+
  show ?thesis
    by (intro conjI h1 h2 h3 h4 c1 c2 r r3 t)
qed

section \<open>Suppression and insertion go together\<close>




end
